theory Spec2Isabelle
  imports Complex_Main "HOL-Library.Char_ord" "HOL-Library.List_Lexorder" "HOL-Library.Sublist"
begin

section \<open>JavaScript numbers\<close>

text \<open>
  A JavaScript number is an IEEE 754 double.  The model takes a number by its real value,
  and rounds where the rounding decides a result: in the product that is floored to give
  the number of frames.  \<open>fl x\<close> is the double nearest to \<open>x\<close>, a tie going to the even
  mantissa: with \<open>e\<close> the exponent of \<open>x\<close>, the largest one with \<open>pow2 e \<le> \<bar>x\<bar>\<close> and no less
  than \<open>- 1022\<close> (below it the doubles are subnormal and keep that spacing), \<open>x\<close> is
  rounded to a multiple of \<open>pow2 (e - 52)\<close>.  A real that is not a double stands for the
  double nearest to it, as a literal does.  Magnitudes beyond the largest double, where
  JavaScript gives \<^verbatim>\<open>Infinity\<close>, and \<^verbatim>\<open>NaN\<close> are not modelled.
\<close>

definition pow2 :: "int \<Rightarrow> real" where
  "pow2 e = (if 0 \<le> e then 2 ^ nat e else 1 / 2 ^ nat (- e))"

fun exponent_from :: "nat \<Rightarrow> int \<Rightarrow> real \<Rightarrow> int" where
  "exponent_from 0 e x = e"
| "exponent_from (Suc n) e x = (if pow2 e \<le> x then e else exponent_from n (e - 1) x)"

definition exponent :: "real \<Rightarrow> int" where
  "exponent x = exponent_from 2045 1023 \<bar>x\<bar>"

definition round_half_even :: "real \<Rightarrow> int" where
  "round_half_even q =
     (let f = \<lfloor>q\<rfloor>; r = q - of_int f
      in if r < 1 / 2 then f else if 1 / 2 < r then f + 1 else if even f then f else f + 1)"

definition fl :: "real \<Rightarrow> real" where
  "fl x = of_int (round_half_even (x / pow2 (exponent x - 52))) * pow2 (exponent x - 52)"

section \<open>The 3D compositing path (videoExporter.ts, AnimationRenderer.render3DFrame)\<close>

text \<open>
  \<^verbatim>\<open>render3DFrame\<close> reads
  \<^verbatim>\<open>progress = frame.time\<close> and sets
  \<^verbatim>\<open>plane.rotation.y = Math.PI * progress\<close> and
  \<^verbatim>\<open>plane.position.z = -2 * Math.sin(Math.PI * progress)\<close>.
\<close>

definition rotation_y :: "real \<Rightarrow> real" where
  "rotation_y progress = pi * progress"

definition position_z :: "real \<Rightarrow> real" where
  "position_z progress = - 2 * sin (pi * progress)"

section \<open>Decimal rendering of numbers\<close>

text \<open>
  \<^verbatim>\<open>Number.prototype.toString()\<close> on a non-negative integer: its decimal digits, most
  significant first, with no leading zero.  \<^verbatim>\<open>String.prototype.padStart(n, '0')\<close> puts
  zeros in front of a string shorter than \<open>n\<close> and leaves a longer one as it is.
\<close>

definition digit_char :: "nat \<Rightarrow> char" where
  "digit_char d = char_of (48 + d)"

fun toString :: "nat \<Rightarrow> string" where
  "toString n = (if n < 10 then [digit_char n] else toString (n div 10) @ [digit_char (n mod 10)])"

declare toString.simps [simp del]

definition padStart :: "nat \<Rightarrow> char \<Rightarrow> string \<Rightarrow> string" where
  "padStart n c s = replicate (n - length s) c @ s"

text \<open>
  The name under which \<^verbatim>\<open>exportToVideo\<close> writes a frame:
  \<^verbatim>\<open>`frames/frame${frame.toString().padStart(6, '0')}.png`\<close>.
\<close>

definition frameName :: "nat \<Rightarrow> string" where
  "frameName frame = ''frames/frame'' @ padStart 6 CHR ''0'' (toString frame) @ ''.png''"

section \<open>The encoder session manager (ffmpeg.ts)\<close>

subsection \<open>Resource fetch with retry: fetchWithRetry\<close>

text \<open>
  A thrown JavaScript value is either an \<^verbatim>\<open>Error\<close> object with its message, or some
  other value (for which \<^verbatim>\<open>error instanceof Error\<close> is false), kept as the string that
  renders it.
\<close>

datatype thrown = Err string | Other string

record response =
  ok :: bool
  status :: nat

text \<open>
  The network is an oracle: the outcome of the \<open>n\<close>-th call of \<^verbatim>\<open>fetch\<close> (counted from
  \<open>0\<close>) on a URL.  \<^verbatim>\<open>fetch\<close> rejects with an \<^verbatim>\<open>Error\<close> (a \<^verbatim>\<open>TypeError\<close>), whose
  message is kept, or resolves with a response.
\<close>

datatype fetch_result = Rejects string | Resolves response

type_synonym network = "nat \<Rightarrow> string \<Rightarrow> fetch_result"

datatype net_event = Fetch string | Sleep nat

record net =
  calls :: nat
  net_log :: "net_event list"

text \<open>
  The body of the \<^verbatim>\<open>try\<close> block of one attempt: a response that is not \<^verbatim>\<open>ok\<close> is
  turned into a thrown \<^verbatim>\<open>Error\<close>, which the \<^verbatim>\<open>catch\<close> of the same attempt receives.
\<close>

definition try_fetch :: "fetch_result \<Rightarrow> thrown + response" where
  "try_fetch r =
     (case r of
        Rejects m \<Rightarrow> Inl (Err m)
      | Resolves resp \<Rightarrow>
          if \<not> ok resp then Inl (Err (''HTTP error! status: '' @ toString (status resp)))
          else Inr resp)"

text \<open>
  The inner loop \<^verbatim>\<open>for (let i = 0; i < retries; i++)\<close> on one URL, from attempt \<open>i\<close>.
  It returns the response when an attempt succeeds (the function returns), or \<open>None\<close> when
  the loop ends, together with \<^verbatim>\<open>lastError\<close>.  After a failed attempt the code waits
  \<^verbatim>\<open>1000 * Math.pow(2, i)\<close> milliseconds, unless \<^verbatim>\<open>i === retries - 1\<close>, where it
  continues at once.
\<close>

function attempts ::
  "network \<Rightarrow> string \<Rightarrow> nat \<Rightarrow> nat \<Rightarrow> thrown option \<Rightarrow> net
     \<Rightarrow> (response option \<times> thrown option) \<times> net" where
  "attempts fetch url retries i lastError s =
     (if i < retries then
        (let s1 = s\<lparr>calls := calls s + 1, net_log := net_log s @ [Fetch url]\<rparr> in
         case try_fetch (fetch (calls s) url) of
           Inr resp \<Rightarrow> ((Some resp, lastError), s1)
         | Inl error \<Rightarrow>
             if Suc i = retries then attempts fetch url retries (i + 1) (Some error) s1
             else attempts fetch url retries (i + 1) (Some error)
                    (s1\<lparr>net_log := net_log s1 @ [Sleep (1000 * 2 ^ i)]\<rparr>))
      else ((None, lastError), s))"
  by pat_completeness auto
termination
  by (relation "measure (\<lambda>(fetch, url, retries, i, lastError, s). retries - i)") auto

declare attempts.simps [simp del]

text \<open>The outer loop \<^verbatim>\<open>for (const url of urls)\<close>.\<close>

fun urls_loop ::
  "network \<Rightarrow> string list \<Rightarrow> nat \<Rightarrow> thrown option \<Rightarrow> net
     \<Rightarrow> (response option \<times> thrown option) \<times> net" where
  "urls_loop fetch [] retries lastError s = ((None, lastError), s)"
| "urls_loop fetch (url # urls) retries lastError s =
     (case attempts fetch url retries 0 lastError s of
        ((Some resp, e), s') \<Rightarrow> ((Some resp, e), s')
      | ((None, e), s') \<Rightarrow> urls_loop fetch urls retries e s')"

text \<open>
  \<^verbatim>\<open>throw lastError || new Error('Failed to fetch after all retries')\<close> ends the function
  when no attempt succeeded.
\<close>

definition fetchWithRetry :: "network \<Rightarrow> string list \<Rightarrow> nat \<Rightarrow> net \<Rightarrow> (thrown + response) \<times> net" where
  "fetchWithRetry fetch urls retries s =
     (case urls_loop fetch urls retries None s of
        ((Some resp, e), s') \<Rightarrow> (Inr resp, s')
      | ((None, e), s') \<Rightarrow>
          (Inl (case e of Some err \<Rightarrow> err | None \<Rightarrow> Err ''Failed to fetch after all retries''), s'))"

subsection \<open>The shared encoder: getFFmpeg\<close>

text \<open>
  The two source lists handed to \<^verbatim>\<open>fetchWithRetry\<close> for each resource: the primary CDN
  first, the fallback second (\<^verbatim>\<open>CDN_URLS\<close>).
\<close>

definition core_urls :: "string list" where
  "core_urls =
     [''https://cdn.jsdelivr.net/npm/@ffmpeg/core@0.12.6/dist/umd/ffmpeg-core.js'',
      ''https://unpkg.com/@ffmpeg/core@0.12.6/dist/umd/ffmpeg-core.js'']"

definition wasm_urls :: "string list" where
  "wasm_urls =
     [''https://cdn.jsdelivr.net/npm/@ffmpeg/core@0.12.6/dist/umd/ffmpeg-core.wasm'',
      ''https://unpkg.com/@ffmpeg/core@0.12.6/dist/umd/ffmpeg-core.wasm'']"

definition worker_urls :: "string list" where
  "worker_urls =
     [''https://cdn.jsdelivr.net/npm/@ffmpeg/core@0.12.6/dist/umd/ffmpeg-core.worker.js'',
      ''https://unpkg.com/@ffmpeg/core@0.12.6/dist/umd/ffmpeg-core.worker.js'']"

text \<open>
  What the environment decides during one initialization: the network, and whether the
  conversion to blobs, \<^verbatim>\<open>toBlobURL\<close> and \<^verbatim>\<open>ffmpeg.load\<close> reject (\<open>None\<close>: they do not).
\<close>

record loader =
  net_fetch :: network
  blob_conv :: "thrown option"
  blob_url :: "thrown option"
  ffmpeg_load :: "thrown option"

text \<open>
  \<^verbatim>\<open>Promise.all\<close> over the three fetches: each of them runs to its end, and the whole
  rejects when one of them does.  The rejection reported here is the first in the order
  of the array (JavaScript reports the earliest in time).
\<close>

fun first_rejection :: "(thrown + 'a) list \<Rightarrow> thrown option" where
  "first_rejection [] = None"
| "first_rejection (Inl e # rs) = Some e"
| "first_rejection (Inr v # rs) = first_rejection rs"

text \<open>
  The body of the \<^verbatim>\<open>try\<close> block of the initialization.  \<open>fresh\<close> tells whether the module
  variable \<^verbatim>\<open>ffmpeg\<close> still holds an instance when \<^verbatim>\<open>ffmpeg!.load\<close> is reached; a call
  on \<^verbatim>\<open>null\<close> throws a \<^verbatim>\<open>TypeError\<close>.
\<close>

definition try_body :: "loader \<Rightarrow> bool \<Rightarrow> net \<Rightarrow> (thrown + unit) \<times> net" where
  "try_body env fresh n =
     (let (coreResponse, n1) = fetchWithRetry (net_fetch env) core_urls 3 n;
          (wasmResponse, n2) = fetchWithRetry (net_fetch env) wasm_urls 3 n1;
          (workerResponse, n3) = fetchWithRetry (net_fetch env) worker_urls 3 n2
      in case first_rejection [coreResponse, wasmResponse, workerResponse] of
           Some e \<Rightarrow> (Inl e, n3)
         | None \<Rightarrow>
            (case blob_conv env of
               Some e \<Rightarrow> (Inl e, n3)
             | None \<Rightarrow>
                (case blob_url env of
                   Some e \<Rightarrow> (Inl e, n3)
                 | None \<Rightarrow>
                    if \<not> fresh then (Inl (Err ''TypeError: ffmpeg is null''), n3)
                    else (case ffmpeg_load env of
                            Some e \<Rightarrow> (Inl e, n3)
                          | None \<Rightarrow> (Inr (), n3)))))"

text \<open>The error thrown by the \<^verbatim>\<open>catch\<close> block of the initialization.\<close>

definition init_error :: "thrown \<Rightarrow> thrown" where
  "init_error error =
     (case error of
        Err m \<Rightarrow> Err (''FFmpeg initialization failed: '' @ m)
      | Other v \<Rightarrow> Err ''Failed to initialize video processing. Please try again later.'')"

text \<open>
  The module state.  An \<^verbatim>\<open>FFmpeg\<close> object is known by the number of its construction, a
  promise by its index in \<open>promises\<close>; a promise is fulfilled with the value of the module
  variable \<^verbatim>\<open>ffmpeg\<close>.  \<open>loaded\<close> lists the instances whose \<^verbatim>\<open>load\<close> has completed,
  \<open>started\<close> counts the initialization sequences begun.
\<close>

datatype promise_state = Pending | Fulfilled "nat option" | Rejected thrown

record session =
  ffmpeg :: "nat option"
  isLoading :: bool
  loadingPromise :: "nat option"
  instances :: nat
  loaded :: "nat list"
  promises :: "promise_state list"
  started :: nat
  network :: net

definition init_session :: session where
  "init_session =
     \<lparr>ffmpeg = None, isLoading = False, loadingPromise = None, instances = 0, loaded = [],
      promises = [], started = 0, network = \<lparr>calls = 0, net_log = []\<rparr>\<rparr>"

text \<open>
  What a call of the \<^verbatim>\<open>async\<close> function \<^verbatim>\<open>getFFmpeg\<close> gives its caller: the instance
  itself (the caller's \<^verbatim>\<open>await\<close> continues with it without waiting for any load), or the
  shared promise \<^verbatim>\<open>loadingPromise\<close> (the caller waits until it is settled).
\<close>

datatype acquired = Instance nat | Awaits nat

definition getFFmpeg :: "session \<Rightarrow> acquired \<times> session" where
  "getFFmpeg s =
     (case ffmpeg s of
        Some h \<Rightarrow> (Instance h, s)
      | None \<Rightarrow>
         (case (isLoading s, loadingPromise s) of
            (True, Some p) \<Rightarrow> (Awaits p, s)
          | _ \<Rightarrow>
             (let h = instances s; p = length (promises s)
              in (Awaits p,
                  s\<lparr>isLoading := True, ffmpeg := Some h, instances := h + 1,
                    loadingPromise := Some p, promises := promises s @ [Pending],
                    started := started s + 1\<rparr>))))"

text \<open>
  The rest of the initialization started by \<^verbatim>\<open>getFFmpeg\<close>, run to its end under the
  environment \<open>env\<close>: the \<^verbatim>\<open>try\<close> body, then on success \<^verbatim>\<open>return ffmpeg!\<close>, on failure the
  \<^verbatim>\<open>catch\<close> block (\<^verbatim>\<open>ffmpeg = null\<close> and the wrapped error), and in both cases the
  \<^verbatim>\<open>finally\<close> block.  Nothing happens when no initialization is in flight.
\<close>

definition settle :: "loader \<Rightarrow> session \<Rightarrow> session" where
  "settle env s =
     (case loadingPromise s of
        None \<Rightarrow> s
      | Some p \<Rightarrow>
         (case try_body env (ffmpeg s \<noteq> None) (network s) of
            (Inr u, n) \<Rightarrow>
              s\<lparr>loaded := (case ffmpeg s of Some h \<Rightarrow> h # loaded s | None \<Rightarrow> loaded s),
                promises := (promises s)[p := Fulfilled (ffmpeg s)],
                network := n, isLoading := False, loadingPromise := None\<rparr>
          | (Inl cause, n) \<Rightarrow>
              s\<lparr>ffmpeg := None, promises := (promises s)[p := Rejected (init_error cause)],
                network := n, isLoading := False, loadingPromise := None\<rparr>))"

text \<open>
  A run of the module: calls of \<^verbatim>\<open>getFFmpeg\<close> interleaved with the completion of the
  initialization in flight.  The run gives what each call returned, in order.
\<close>

datatype action = Call | Settle loader

fun run :: "action list \<Rightarrow> session \<Rightarrow> acquired list \<times> session" where
  "run [] s = ([], s)"
| "run (Call # as) s =
     (let (r, s1) = getFFmpeg s; (rs, s2) = run as s1 in (r # rs, s2))"
| "run (Settle env # as) s = run as (settle env s)"

section \<open>The animation timeline driver (videoExporter.ts, applyAnimations)\<close>

datatype anim_type = Fade | Slide | Zoom | Rotate | ThreeD

record animation =
  anim_type :: anim_type
  anim_duration :: "real option"
  anim_delay :: "real option"
  anim_easing :: "string option"

text \<open>
  The presentation of the element that the driver touches: its opacity and the three
  components of its transform.  \<^verbatim>\<open>element.style.transform = ''\<close> and
  \<^verbatim>\<open>element.style.opacity = '1'\<close> give the neutral presentation.
\<close>

record style =
  opacity :: real
  translate_x :: real
  scale :: real
  rotation :: real

definition neutral :: style where
  "neutral = \<lparr>opacity = 1, translate_x = 0, scale = 1, rotation = 0\<rparr>"

datatype property = Opacity | TranslateX | Scale | Rotation

record tween =
  from_vars :: "(property \<times> real) list"
  to_vars :: "(property \<times> real) list"
  tween_start :: real
  tween_duration :: real
  tween_ease :: string

text \<open>
  The \<^verbatim>\<open>switch (animation.type)\<close>: the \<^verbatim>\<open>fromTo\<close> variables of each kind; \<^verbatim>\<open>'3d'\<close> has
  no case and adds nothing to the timeline.
\<close>

definition tween_vars :: "anim_type \<Rightarrow> ((property \<times> real) list \<times> (property \<times> real) list) option" where
  "tween_vars t =
     (case t of
        Fade \<Rightarrow> Some ([(Opacity, 0)], [(Opacity, 1)])
      | Slide \<Rightarrow> Some ([(TranslateX, - 100), (Opacity, 0)], [(TranslateX, 0), (Opacity, 1)])
      | Zoom \<Rightarrow> Some ([(Scale, 0), (Opacity, 0)], [(Scale, 1), (Opacity, 1)])
      | Rotate \<Rightarrow> Some ([(Rotation, - 180), (Opacity, 0)], [(Rotation, 0), (Opacity, 1)])
      | ThreeD \<Rightarrow> None)"

text \<open>
  \<^verbatim>\<open>animation.duration || 1\<close>, \<^verbatim>\<open>animation.delay || 0\<close> and
  \<^verbatim>\<open>animation.easing || 'power2.inOut'\<close>: an absent, zero or empty value gives the
  default.
\<close>

definition duration_of :: "animation \<Rightarrow> real" where
  "duration_of a = (case anim_duration a of None \<Rightarrow> 1 | Some d \<Rightarrow> if d = 0 then 1 else d)"

definition delay_of :: "animation \<Rightarrow> real" where
  "delay_of a = (case anim_delay a of None \<Rightarrow> 0 | Some d \<Rightarrow> d)"

definition ease_of :: "animation \<Rightarrow> string" where
  "ease_of a = (case anim_easing a of None \<Rightarrow> ''power2.inOut''
                | Some e \<Rightarrow> if e = [] then ''power2.inOut'' else e)"

text \<open>
  Modelled from the spec: the timeline library (gsap) is not part of the sources.  A
  timeline places each added tween at its current end, after the tween's delay; seeking
  to a progress sets the time to that share of the timeline's duration and renders each
  tween at the ratio of its own duration that has elapsed (\<open>0\<close> before its start, \<open>1\<close>
  after its end), passed through the easing function, which is a parameter here: each
  variable takes the value between its \<^verbatim>\<open>from\<close> and its \<^verbatim>\<open>to\<close> at that ratio.
\<close>

definition timeline_duration :: "tween list \<Rightarrow> real" where
  "timeline_duration timeline = fold max (map (\<lambda>tw. tween_start tw + tween_duration tw) timeline) 0"

definition tween_ratio :: "tween \<Rightarrow> real \<Rightarrow> real" where
  "tween_ratio tw t =
     (if t \<le> tween_start tw then 0
      else if tween_start tw + tween_duration tw \<le> t then 1
      else (t - tween_start tw) / tween_duration tw)"

fun set_property :: "property \<Rightarrow> real \<Rightarrow> style \<Rightarrow> style" where
  "set_property Opacity v st = st\<lparr>opacity := v\<rparr>"
| "set_property TranslateX v st = st\<lparr>translate_x := v\<rparr>"
| "set_property Scale v st = st\<lparr>scale := v\<rparr>"
| "set_property Rotation v st = st\<lparr>rotation := v\<rparr>"

definition render_tween :: "(string \<Rightarrow> real \<Rightarrow> real) \<Rightarrow> real \<Rightarrow> style \<Rightarrow> tween \<Rightarrow> style" where
  "render_tween ease t st tw =
     (let r = ease (tween_ease tw) (tween_ratio tw t)
      in foldl (\<lambda>st ((p, a), (q, b)). set_property p (a + (b - a) * r) st) st
           (zip (from_vars tw) (to_vars tw)))"

definition seek :: "(string \<Rightarrow> real \<Rightarrow> real) \<Rightarrow> tween list \<Rightarrow> real \<Rightarrow> style \<Rightarrow> style" where
  "seek ease timeline progress st =
     foldl (render_tween ease (progress * timeline_duration timeline)) st timeline"

text \<open>The body of \<^verbatim>\<open>animations.forEach\<close>: one \<^verbatim>\<open>timeline.fromTo\<close> for each known kind.\<close>

definition add_animation :: "tween list \<Rightarrow> animation \<Rightarrow> tween list" where
  "add_animation timeline a =
     (case tween_vars (anim_type a) of
        None \<Rightarrow> timeline
      | Some (f, t) \<Rightarrow>
          timeline @ [\<lparr>from_vars = f, to_vars = t,
                       tween_start = timeline_duration timeline + delay_of a,
                       tween_duration = duration_of a, tween_ease = ease_of a\<rparr>])"

text \<open>
  \<^verbatim>\<open>applyAnimations\<close>: the element is reset, the timeline is built from the animations in
  their order, and the timeline is set to the progress.  The result is the element's
  presentation right after this seek.
\<close>

definition applyAnimations :: "(string \<Rightarrow> real \<Rightarrow> real) \<Rightarrow> real \<Rightarrow> animation list \<Rightarrow> style" where
  "applyAnimations ease progress animations =
     seek ease (foldl add_animation [] animations) progress neutral"

section \<open>The frame pipeline (videoExporter.ts, exportToVideo)\<close>

record VideoExportOptions =
  duration :: "real option"
  fps :: "nat option"
  width :: "nat option"
  height :: "nat option"
  quality :: "nat option"
  animations :: "animation list option"

text \<open>The defaults of the destructuring at the head of \<^verbatim>\<open>exportToVideo\<close>.\<close>

definition or_default :: "'a \<Rightarrow> 'a option \<Rightarrow> 'a" where
  "or_default d v = (case v of None \<Rightarrow> d | Some x \<Rightarrow> x)"

definition the_duration :: "VideoExportOptions \<Rightarrow> real" where
  "the_duration options = or_default 3 (duration options)"

definition the_fps :: "VideoExportOptions \<Rightarrow> nat" where
  "the_fps options = or_default 30 (fps options)"

definition the_width :: "VideoExportOptions \<Rightarrow> nat" where
  "the_width options = or_default 1920 (width options)"

definition the_height :: "VideoExportOptions \<Rightarrow> nat" where
  "the_height options = or_default 1080 (height options)"

definition the_quality :: "VideoExportOptions \<Rightarrow> nat" where
  "the_quality options = or_default 23 (quality options)"

definition the_animations :: "VideoExportOptions \<Rightarrow> animation list" where
  "the_animations options =
     or_default [\<lparr>anim_type = Fade, anim_duration = Some 1, anim_delay = None,
                  anim_easing = None\<rparr>] (animations options)"

text \<open>
  \<^verbatim>\<open>const totalFrames = Math.floor(duration * fps)\<close>: the floor of the product as
  JavaScript computes it, the double nearest to the product of the two numbers.  The
  frame rate is an integer.
\<close>

definition totalFrames :: "VideoExportOptions \<Rightarrow> int" where
  "totalFrames options = \<lfloor>fl (fl (the_duration options) * real (the_fps options))\<rfloor>"

definition batchSize :: nat where
  "batchSize = 5"

text \<open>
  The argument of \<^verbatim>\<open>captureFrame\<close> (the element is always the clone).  The time of a
  frame, \<^verbatim>\<open>frame / totalFrames\<close>, is taken as the real quotient.
\<close>

record RenderFrame =
  time :: real
  frame_width :: nat
  frame_height :: nat
  frame_animations :: "animation list"

definition render_frame :: "VideoExportOptions \<Rightarrow> nat \<Rightarrow> RenderFrame" where
  "render_frame options frame =
     \<lparr>time = real frame / real_of_int (totalFrames options),
      frame_width = the_width options, frame_height = the_height options,
      frame_animations = the_animations options\<rparr>"

text \<open>
  What the call observes and changes: the directories and files of the encoder's storage,
  whether the clone is in the document, and the events of the call in their order.
  \<open>CaptureStart\<close> is the call of \<^verbatim>\<open>captureFrame\<close> for a frame, with the frame's time;
  \<open>Captured\<close> and \<open>Written\<close> are the completion of the capture and of the write of a
  frame; \<open>TaskFailed\<close> is the rejection of a frame's promise; \<open>Exec\<close> is the call of the
  encoder.  Messages to the user and to the console are left out.
\<close>

datatype event =
    CreateDir string
  | AppendClone
  | CaptureStart nat real
  | Captured nat
  | Written nat string
  | TaskFailed nat
  | Exec "string list"
  | ReadFile string
  | DeleteDir string
  | Delete string
  | RemoveClone

record world =
  dirs :: "string list"
  files :: "string list"
  clone_attached :: bool
  trace :: "event list"

type_synonym data = "nat list"

text \<open>
  What a capture yields: the picture of the element in the presentation it has when it is
  rasterised, at the width and height asked for; on the 3D path, that picture as the
  texture of a plane, with the plane's rotation and depth.
\<close>

datatype image = Flat style nat nat | Plane style real real

text \<open>
  The environment of one call: what \<^verbatim>\<open>await getFFmpeg()\<close> gives (a rejection, or a value
  that is truthy or not); of the timeline library, its easing functions and, for a
  timeline that is set to a progress and left running, the progress at which the timeline
  stands when the library calls its \<^verbatim>\<open>onComplete\<close>; the outcome of each operation of the
  encoder and of the rasterisation of each frame (\<open>None\<close>: no rejection); and for the
  batch that starts at a frame the order in which the pending steps of its frames
  complete.
\<close>

record env =
  awaited_ffmpeg :: "thrown + bool"
  createDir :: "string \<Rightarrow> thrown option"
  easing :: "string \<Rightarrow> real \<Rightarrow> real"
  completes_at :: "real \<Rightarrow> real"
  rasterise :: "RenderFrame \<Rightarrow> thrown option"
  writeFile :: "string \<Rightarrow> image \<Rightarrow> thrown option"
  exec :: "string list \<Rightarrow> thrown option"
  readFile :: "string \<Rightarrow> thrown + data"
  deleteDir :: "string \<Rightarrow> thrown option"
  delete :: "string \<Rightarrow> thrown option"
  schedule :: "nat \<Rightarrow> nat list"

text \<open>
  \<^verbatim>\<open>captureFrame\<close>: it awaits \<^verbatim>\<open>applyAnimations\<close> on the element, then rasterises the
  element: through \<^verbatim>\<open>render3DFrame\<close> when one of the animations is of the kind \<^verbatim>\<open>'3d'\<close>,
  else through \<^verbatim>\<open>html2canvas\<close> at the frame's width and height.  A rejection of the
  rasterisation (of \<^verbatim>\<open>html2canvas\<close>, of the renderer, or \<^verbatim>\<open>toBlob\<close> giving no blob) is
  thrown again by the \<^verbatim>\<open>catch\<close> block.

  The promise that \<^verbatim>\<open>applyAnimations\<close> returns is resolved by the \<^verbatim>\<open>onComplete\<close> callback
  of its timeline, \<^verbatim>\<open>gsap.timeline({ onComplete: () => resolve() })\<close>, and by nothing else:
  the function sets the timeline to the frame's time as its progress and does not pause
  it.  So the \<^verbatim>\<open>await\<close> continues, and the element is rasterised, with the timeline at the
  progress at which the library calls \<^verbatim>\<open>onComplete\<close>.  (The timelines that the other
  frames of a batch run on the same clone are left out.)
\<close>

definition captureFrame :: "env \<Rightarrow> RenderFrame \<Rightarrow> thrown + image" where
  "captureFrame e frame =
     (let shown = applyAnimations (easing e) (completes_at e (time frame)) (frame_animations frame)
      in case rasterise e frame of
           Some err \<Rightarrow> Inl err
         | None \<Rightarrow>
            if list_ex (\<lambda>a. anim_type a = ThreeD) (frame_animations frame)
            then Inr (Plane shown (rotation_y (time frame)) (position_z (time frame)))
            else Inr (Flat shown (frame_width frame) (frame_height frame)))"

definition emit :: "event list \<Rightarrow> world \<Rightarrow> world" where
  "emit evs w = w\<lparr>trace := trace w @ evs\<rparr>"

text \<open>
  One frame of a batch is an \<^verbatim>\<open>async\<close> callback with two awaited steps: the capture, then
  the write of the captured data under the frame's name.  The state of a batch is the
  list of frames whose capture is pending and the list of frames, with their data, whose
  write is pending.  \<open>task_step\<close> completes the pending step of frame \<open>t\<close>; a rejection of
  that step rejects the frame's promise, and with it \<^verbatim>\<open>Promise.all(batch)\<close>.
\<close>

type_synonym batch_state = "nat list \<times> (nat \<times> image) list"

definition task_step ::
  "env \<Rightarrow> VideoExportOptions \<Rightarrow> nat \<Rightarrow> batch_state \<times> world
     \<Rightarrow> (thrown \<times> world) + (batch_state \<times> world)" where
  "task_step e options t bw =
     (case bw of ((capturing, writing), w) \<Rightarrow>
        if t \<in> set capturing then
          (case captureFrame e (render_frame options t) of
             Inl err \<Rightarrow> Inl (err, emit [TaskFailed t] w)
           | Inr frameData \<Rightarrow>
               Inr ((remove1 t capturing, writing @ [(t, frameData)]), emit [Captured t] w))
        else
          (case map_of writing t of
             None \<Rightarrow> Inr ((capturing, writing), w)
           | Some frameData \<Rightarrow>
              (case writeFile e (frameName t) frameData of
                 Some err \<Rightarrow> Inl (err, emit [TaskFailed t] w)
               | None \<Rightarrow>
                   Inr ((capturing, filter (\<lambda>kd. fst kd \<noteq> t) writing),
                        emit [Written t (frameName t)] (w\<lparr>files := files w @ [frameName t]\<rparr>)))))"

fun run_steps ::
  "env \<Rightarrow> VideoExportOptions \<Rightarrow> nat list \<Rightarrow> batch_state \<times> world
     \<Rightarrow> (thrown \<times> world) + (batch_state \<times> world)" where
  "run_steps e options [] bw = Inr bw"
| "run_steps e options (t # ts) bw =
     (case task_step e options t bw of
        Inl f \<Rightarrow> Inl f
      | Inr bw' \<Rightarrow> run_steps e options ts bw')"

text \<open>
  One turn of the loop: \<^verbatim>\<open>Array.from({ length: n }, async (_, j) => ...)\<close> calls the
  callback for \<open>j = 0, ..., n - 1\<close>, and each call runs up to its first \<^verbatim>\<open>await\<close>, that is,
  it calls \<^verbatim>\<open>captureFrame\<close>; then \<^verbatim>\<open>await Promise.all(batch)\<close> waits until every frame
  of the batch is written, or one is rejected.  The steps complete in the order of the
  schedule; the steps still pending after it complete in the order of the frames.  At a
  rejection the loop is left at once; what the other frames of the batch still do
  afterwards is not among the events of the call.
\<close>

definition run_batch ::
  "env \<Rightarrow> VideoExportOptions \<Rightarrow> nat \<Rightarrow> nat \<Rightarrow> world \<Rightarrow> (thrown \<times> world) + world" where
  "run_batch e options i n w =
     (let batch = [i..<i + n];
          w1 = emit (map (\<lambda>frame. CaptureStart frame (time (render_frame options frame))) batch) w
      in case run_steps e options (schedule e i @ batch @ batch) ((batch, []), w1) of
           Inl f \<Rightarrow> Inl f
         | Inr (b, w2) \<Rightarrow> Inr w2)"

text \<open>\<^verbatim>\<open>for (let i = 0; i < totalFrames; i += batchSize)\<close>\<close>

function capture_loop ::
  "env \<Rightarrow> VideoExportOptions \<Rightarrow> nat \<Rightarrow> world \<Rightarrow> (thrown \<times> world) + world" where
  "capture_loop e options i w =
     (if int i < totalFrames options then
        (case run_batch e options i
                (nat (min (int batchSize) (totalFrames options - int i))) w of
           Inl f \<Rightarrow> Inl f
         | Inr w' \<Rightarrow> capture_loop e options (i + batchSize) w')
      else Inr w)"
  by pat_completeness auto
termination
  by (relation "measure (\<lambda>(e, options, i, w). nat (totalFrames options - int i))")
    (auto simp: batchSize_def)

declare capture_loop.simps [simp del]

definition exec_args :: "VideoExportOptions \<Rightarrow> string list" where
  "exec_args options =
     [''-framerate'', toString (the_fps options),
      ''-i'', ''frames/frame%06d.png'',
      ''-c:v'', ''libx264'',
      ''-preset'', ''slow'',
      ''-crf'', toString (the_quality options),
      ''-pix_fmt'', ''yuv420p'',
      ''-movflags'', ''+faststart'',
      ''-profile:v'', ''high'',
      ''-tune'', ''animation'',
      ''-b:v'', ''8M'',
      ''output.mp4'']"

text \<open>
  The inner \<^verbatim>\<open>try\<close> block: the capture loop, the encoding, the reading of the result and
  the removal of the frame directory and of the output file.  A successful operation of
  the encoder has its effect on the storage: \<^verbatim>\<open>exec\<close> leaves the output file,
  \<^verbatim>\<open>deleteDir\<close> removes the directory with what is below it, \<^verbatim>\<open>delete\<close> removes the
  file.
\<close>

definition below :: "string \<Rightarrow> string \<Rightarrow> bool" where
  "below dir file \<longleftrightarrow> take (length dir + 1) file = dir @ ''/''"

definition try_block :: "env \<Rightarrow> VideoExportOptions \<Rightarrow> world \<Rightarrow> (thrown + data) \<times> world" where
  "try_block e options w =
     (case capture_loop e options 0 w of
        Inl (err, w1) \<Rightarrow> (Inl err, w1)
      | Inr w1 \<Rightarrow>
         (let w2 = emit [Exec (exec_args options)] w1 in
          case exec e (exec_args options) of
            Some err \<Rightarrow> (Inl err, w2)
          | None \<Rightarrow>
             (let w3 = w2\<lparr>files := files w2 @ [''output.mp4'']\<rparr> in
              case readFile e ''output.mp4'' of
                Inl err \<Rightarrow> (Inl err, w3)
              | Inr bytes \<Rightarrow>
                 (let w4 = emit [ReadFile ''output.mp4''] w3 in
                  case deleteDir e ''frames'' of
                    Some err \<Rightarrow> (Inl err, w4)
                  | None \<Rightarrow>
                     (let w5 = emit [DeleteDir ''frames'']
                                 (w4\<lparr>dirs := removeAll ''frames'' (dirs w4),
                                     files := filter (\<lambda>f. \<not> below ''frames'' f) (files w4)\<rparr>) in
                      case delete e ''output.mp4'' of
                        Some err \<Rightarrow> (Inl err, w5)
                      | None \<Rightarrow>
                          (Inr bytes,
                           emit [Delete ''output.mp4'']
                             (w5\<lparr>files := removeAll ''output.mp4'' (files w5)\<rparr>)))))))"

text \<open>
  \<^verbatim>\<open>exportToVideo\<close>.  The \<^verbatim>\<open>finally\<close> block removes the clone when it is in the document;
  the outer \<^verbatim>\<open>catch\<close> reports the error and throws it again.
\<close>

definition exportToVideo :: "env \<Rightarrow> VideoExportOptions \<Rightarrow> world \<Rightarrow> (thrown + data) \<times> world" where
  "exportToVideo e options w =
     (case awaited_ffmpeg e of
        Inl err \<Rightarrow> (Inl err, w)
      | Inr handle \<Rightarrow>
         if \<not> handle then (Inl (Err ''Failed to initialize FFmpeg''), w)
         else
          (case createDir e ''frames'' of
             Some err \<Rightarrow> (Inl err, w)
           | None \<Rightarrow>
              (let w1 = emit [CreateDir ''frames''] (w\<lparr>dirs := dirs w @ [''frames'']\<rparr>);
                   w2 = emit [AppendClone] (w1\<lparr>clone_attached := True\<rparr>);
                   (result, w3) = try_block e options w2;
                   w4 = (if clone_attached w3
                         then emit [RemoveClone] (w3\<lparr>clone_attached := False\<rparr>) else w3)
               in (result, w4))))"

section \<open>Observations on the events of a call\<close>

text \<open>
  The frames whose capture was started and the frames whose write completed, in the order
  of the events, and the frame an event of a frame's task belongs to.
\<close>

fun starts :: "event list \<Rightarrow> nat list" where
  "starts [] = []"
| "starts (CaptureStart f t # evs) = f # starts evs"
| "starts (ev # evs) = starts evs"

fun written :: "event list \<Rightarrow> nat list" where
  "written [] = []"
| "written (Written f n # evs) = f # written evs"
| "written (ev # evs) = written evs"

fun task_of :: "event \<Rightarrow> nat option" where
  "task_of (Captured f) = Some f"
| "task_of (Written f n) = Some f"
| "task_of (TaskFailed f) = Some f"
| "task_of ev = None"

text \<open>
  \<open>each_after R evs\<close>: every event of \<open>evs\<close> stands in \<open>R\<close> to the set of the events before
  it.
\<close>

definition each_after :: "(event \<Rightarrow> event set \<Rightarrow> bool) \<Rightarrow> event list \<Rightarrow> bool" where
  "each_after R evs \<longleftrightarrow> (\<forall>pre x post. evs = pre @ x # post \<longrightarrow> R x (set pre))"

text \<open>
  The two orders of a batched run.  A capture is started only when every frame of an
  earlier batch is written; a step of a frame's task completes only when the capture of
  every frame of its batch has been started.  The batch of a frame is the quotient of its
  index by the batch size.
\<close>

definition after_earlier_batches :: "event \<Rightarrow> event set \<Rightarrow> bool" where
  "after_earlier_batches x S \<longleftrightarrow>
     (\<forall>j t. x = CaptureStart j t \<longrightarrow>
        (\<forall>f. f div batchSize < j div batchSize \<longrightarrow> Written f (frameName f) \<in> S))"

definition after_batch_started :: "VideoExportOptions \<Rightarrow> event \<Rightarrow> event set \<Rightarrow> bool" where
  "after_batch_started options x S \<longleftrightarrow>
     (\<forall>f. task_of x = Some f \<longrightarrow>
        (\<forall>g. g div batchSize = f div batchSize \<and> int g < totalFrames options \<longrightarrow>
           CaptureStart g (time (render_frame options g)) \<in> S))"

section \<open>Invariants used in the proofs\<close>

text \<open>The \<open>k\<close> lowest decimal digits of a number, most significant first.\<close>

fun fixed :: "nat \<Rightarrow> nat \<Rightarrow> string" where
  "fixed 0 n = []"
| "fixed (Suc k) n = fixed k (n div 10) @ [digit_char (n mod 10)]"

text \<open>
  The sequence of fetches and waits that \<^verbatim>\<open>fetchWithRetry\<close> goes through on a list of
  URLs when no attempt succeeds, with three attempts for each URL.
\<close>

abbreviation retry_plan :: "string list \<Rightarrow> net_event list" where
  "retry_plan urls \<equiv>
     concat (map (\<lambda>u. [Fetch u, Sleep 1000, Fetch u, Sleep 2000, Fetch u]) urls)"

text \<open>
  What holds of the module variables in every state a run can reach.
\<close>

definition session_inv :: "session \<Rightarrow> bool" where
  "session_inv s \<longleftrightarrow>
     (isLoading s \<longleftrightarrow> loadingPromise s \<noteq> None)
   \<and> (isLoading s \<longrightarrow> ffmpeg s \<noteq> None)
   \<and> (\<forall>p. loadingPromise s = Some p \<longrightarrow> p < length (promises s) \<and> promises s ! p = Pending)
   \<and> (\<forall>h. ffmpeg s = Some h \<longrightarrow> h < instances s \<and> (isLoading s \<longrightarrow> h \<notin> set (loaded s)))
   \<and> (\<forall>h. h \<in> set (loaded s) \<longrightarrow> h < instances s)"

text \<open>
  The events of the tasks of a batch with frames \<open>B\<close>: completions and rejections of
  frames of \<open>B\<close> only, no frame written twice, each under its own name.
\<close>

definition seg_ok :: "nat set \<Rightarrow> event list \<Rightarrow> bool" where
  "seg_ok B seg \<longleftrightarrow>
     distinct (written seg) \<and> set (written seg) \<subseteq> B \<and> starts seg = []
   \<and> (\<forall>ev \<in> set seg. \<exists>f \<in> B. ev = Captured f \<or> ev = Written f (frameName f) \<or> ev = TaskFailed f)"

text \<open>
  The state of a batch with frames \<open>B\<close> after the events \<open>seg\<close>: every frame of \<open>B\<close> is in
  exactly one of three stages, its capture pending, its write pending, or written.
\<close>

definition batch_inv :: "nat set \<Rightarrow> batch_state \<Rightarrow> event list \<Rightarrow> bool" where
  "batch_inv B bs seg \<longleftrightarrow>
     (case bs of (cap, wr) \<Rightarrow>
        distinct cap \<and> set cap \<subseteq> B \<and> fst ` set wr \<subseteq> B \<and> set cap \<inter> fst ` set wr = {}
      \<and> set (written seg) \<inter> (set cap \<union> fst ` set wr) = {}
      \<and> B \<subseteq> set cap \<union> fst ` set wr \<union> set (written seg)
      \<and> seg_ok B seg)"

text \<open>
  \<open>same_but w w' seg\<close>: the capture loop took the world from \<open>w\<close> to \<open>w'\<close> with the events
  \<open>seg\<close>; it added the files of the frames written and left the rest as it was.
\<close>

definition same_but :: "world \<Rightarrow> world \<Rightarrow> event list \<Rightarrow> bool" where
  "same_but w w' seg \<longleftrightarrow>
     trace w' = trace w @ seg \<and> files w' = files w @ map frameName (written seg)
   \<and> dirs w' = dirs w \<and> clone_attached w' = clone_attached w"

abbreviation batch_starts :: "VideoExportOptions \<Rightarrow> nat \<Rightarrow> nat \<Rightarrow> event list" where
  "batch_starts options i n \<equiv>
     map (\<lambda>frame. CaptureStart frame (time (render_frame options frame))) [i..<i + n]"

text \<open>
  The events \<open>evs\<close> of the capture loop when the captures of the frames below \<open>k\<close> have
  been started and the batches below frame \<open>i\<close> are complete.
\<close>

definition loop_inv :: "VideoExportOptions \<Rightarrow> nat \<Rightarrow> nat \<Rightarrow> event list \<Rightarrow> bool" where
  "loop_inv options i k evs \<longleftrightarrow>
     starts evs = [0..<k] \<and> int k \<le> max 0 (totalFrames options)
   \<and> distinct (written evs) \<and> set (written evs) \<subseteq> {..<k} \<and> {..<i} \<subseteq> set (written evs)
   \<and> (\<forall>f n. Written f n \<in> set evs \<longrightarrow> n = frameName f)
   \<and> (\<forall>f t. CaptureStart f t \<in> set evs \<longrightarrow>
          t = time (render_frame options f) \<and> int f < totalFrames options)
   \<and> (\<forall>ev \<in> set evs. (\<exists>f t. ev = CaptureStart f t) \<or> task_of ev \<noteq> None)
   \<and> each_after after_earlier_batches evs
   \<and> each_after (after_batch_started options) evs"

text \<open>
  The events of a call outside its capture loop, and the same invariant for all the events
  of a call; the encoder is called only when the loop has run to its end.
\<close>

definition outer :: "event \<Rightarrow> bool" where
  "outer ev \<longleftrightarrow> starts [ev] = [] \<and> written [ev] = [] \<and> task_of ev = None"

text \<open>
  \<open>captured_all e options wr\<close>: each image that waits for its write is what the capture of
  its frame gave.  \<open>kept e options w w'\<close>: from \<open>w\<close> to \<open>w'\<close> events were added, and every
  frame written in them was captured without a rejection and the image written under
  the frame's name without a rejection.
\<close>

definition captured_all :: "env \<Rightarrow> VideoExportOptions \<Rightarrow> (nat \<times> image) list \<Rightarrow> bool" where
  "captured_all e options wr \<longleftrightarrow>
     (\<forall>t d. (t, d) \<in> set wr \<longrightarrow> captureFrame e (render_frame options t) = Inr d)"

definition kept :: "env \<Rightarrow> VideoExportOptions \<Rightarrow> world \<Rightarrow> world \<Rightarrow> bool" where
  "kept e options w w' \<longleftrightarrow>
     (\<exists>s. trace w' = trace w @ s
        \<and> (\<forall>f. f \<in> set (written s) \<longrightarrow>
              (\<exists>d. captureFrame e (render_frame options f) = Inr d
                  \<and> writeFile e (frameName f) d = None)))"

definition call_inv :: "VideoExportOptions \<Rightarrow> nat \<Rightarrow> nat \<Rightarrow> event list \<Rightarrow> bool" where
  "call_inv options j k evs \<longleftrightarrow>
     starts evs = [0..<k] \<and> int k \<le> max 0 (totalFrames options)
   \<and> distinct (written evs) \<and> set (written evs) \<subseteq> {..<k} \<and> {..<j} \<subseteq> set (written evs)
   \<and> (\<forall>f n. Written f n \<in> set evs \<longrightarrow> n = frameName f)
   \<and> (\<forall>f t. CaptureStart f t \<in> set evs \<longrightarrow>
          t = time (render_frame options f) \<and> int f < totalFrames options)
   \<and> each_after after_earlier_batches evs
   \<and> each_after (after_batch_started options) evs
   \<and> ((\<exists>a. Exec a \<in> set evs) \<longrightarrow> j = nat (totalFrames options) \<and> k = nat (totalFrames options))"

section \<open>Environments and inputs used as examples\<close>

text \<open>A network on which every fetch is rejected, and an initialization on it.\<close>

definition unreachable :: network where
  "unreachable n url = Rejects ''Failed to fetch''"

definition offline :: loader where
  "offline = \<lparr>net_fetch = unreachable, blob_conv = None, blob_url = None, ffmpeg_load = None\<rparr>"

text \<open>
  A network on which the first five fetches are rejected and every later one is answered
  with the status 503.
\<close>

definition degraded :: network where
  "degraded n url =
     (if n < 5 then Rejects ''Failed to fetch'' else Resolves \<lparr>ok = False, status = 503\<rparr>)"

text \<open>
  A network on which every fetch is answered, and an initialization on it in which
  \<^verbatim>\<open>ffmpeg.load\<close> rejects with a value that is not an \<^verbatim>\<open>Error\<close>.
\<close>

definition reachable :: network where
  "reachable n url = Resolves \<lparr>ok = True, status = 200\<rparr>"

definition load_rejects :: loader where
  "load_rejects =
     \<lparr>net_fetch = reachable, blob_conv = None, blob_url = None,
      ffmpeg_load = Some (Other ''worker terminated'')\<rparr>"

text \<open>An export of 40000 seconds at 30 frames per second.\<close>

definition long_export :: VideoExportOptions where
  "long_export =
     \<lparr>duration = Some 40000, fps = Some 30, width = None, height = None, quality = None,
      animations = None\<rparr>"

text \<open>The linear easing, and a slide of one second that starts after half a second.\<close>

definition linear :: "string \<Rightarrow> real \<Rightarrow> real" where
  "linear name r = r"


text \<open>
  An environment in which every operation succeeds, the easing is linear, the library
  calls \<^verbatim>\<open>onComplete\<close> when a timeline has reached its end, at progress \<open>1\<close>, as its
  documentation says, and the steps of a batch complete out of order; one in which no
  capture yields an image; one in which
  the capture at time \<open>6/7\<close> fails; an export of 0.7 seconds at 10 frames per second, where
  the duration is the number that JavaScript has for \<^verbatim>\<open>0.7\<close>, the double nearest to \<open>7/10\<close>;
  and an empty storage.
\<close>

definition calm :: env where
  "calm = \<lparr>awaited_ffmpeg = Inr True, createDir = (\<lambda>d. None), easing = linear,
     completes_at = (\<lambda>progress. 1), rasterise = (\<lambda>f. None), writeFile = (\<lambda>n d. None),
     exec = (\<lambda>a. None),
     readFile = (\<lambda>n. Inr [0]), deleteDir = (\<lambda>d. None), delete = (\<lambda>n. None),
     schedule = (\<lambda>i. [i + 1, i, i + 1])\<rparr>"

definition blank_canvas :: env where
  "blank_canvas = calm\<lparr>rasterise := (\<lambda>f. Some (Err ''Failed to create frame blob''))\<rparr>"

definition late_failure :: env where
  "late_failure =
     calm\<lparr>rasterise := (\<lambda>f. if time f = 6 / 7 then Some (Err ''Failed to create frame blob'')
                             else None)\<rparr>"

definition short_export :: VideoExportOptions where
  "short_export =
     \<lparr>duration = Some (3152519739159347 / 4503599627370496), fps = Some 10, width = None,
      height = None, quality = None, animations = None\<rparr>"

definition empty_world :: world where
  "empty_world = \<lparr>dirs = [], files = [], clone_attached = False, trace = []\<rparr>"

section \<open>Properties\<close>

subsection \<open>Rounding to the nearest double\<close>

lemma pow2_powr: "pow2 e = 2 powr (of_int e)"
  by (simp add: pow2_def powr_int)

lemma pow2_pos [simp]: "0 < pow2 e"
  by (simp add: pow2_powr)

lemma pow2_add: "pow2 (a + b) = pow2 a * pow2 b"
  by (simp add: pow2_powr powr_add)

lemma pow2_le_iff [simp]: "pow2 a \<le> pow2 b \<longleftrightarrow> a \<le> b"
  by (simp add: pow2_powr)

lemma pow2_less_iff [simp]: "pow2 a < pow2 b \<longleftrightarrow> a < b"
  by (simp add: pow2_powr)

lemma pow2_nat: "0 \<le> e \<Longrightarrow> pow2 e = of_int (2 ^ nat e)"
  by (simp add: pow2_def)

lemma exponent_from_eq:
  "e \<le> e0 \<Longrightarrow> e0 - e \<le> int n \<Longrightarrow> pow2 e \<le> x \<Longrightarrow> x < pow2 (e + 1) \<Longrightarrow> exponent_from n e0 x = e"
proof (induction n arbitrary: e0)
  case 0
  then show ?case by simp
next
  case (Suc n)
  show ?case
  proof (cases "pow2 e0 \<le> x")
    case True
    from True Suc.prems(4) have "pow2 e0 < pow2 (e + 1)" by (rule order.strict_trans1)
    then have "e0 < e + 1" by (simp only: pow2_less_iff)
    then have "e0 \<le> e" by simp
    with Suc.prems(1) True show ?thesis by simp
  next
    case False
    with Suc.prems(3) have "e \<noteq> e0" by auto
    with Suc.prems have "e \<le> e0 - 1" "e0 - 1 - e \<le> int n" by simp_all
    from Suc.IH [OF this Suc.prems(3,4)] False show ?thesis by simp
  qed
qed

lemma exponent_eq:
  "- 1022 \<le> e \<Longrightarrow> e \<le> 1023 \<Longrightarrow> pow2 e \<le> \<bar>x\<bar> \<Longrightarrow> \<bar>x\<bar> < pow2 (e + 1) \<Longrightarrow> exponent x = e"
  unfolding exponent_def by (rule exponent_from_eq) simp_all

lemma exponent_from_cases:
  "exponent_from n e0 x = e0 - int n \<or> (pow2 (exponent_from n e0 x) \<le> x \<and> e0 - int n \<le> exponent_from n e0 x)"
proof (induction n arbitrary: e0)
  case 0
  then show ?case by simp
next
  case (Suc n)
  from Suc.IH [of "e0 - 1"] show ?case by auto
qed

lemma exponent_from_le: "exponent_from n e0 x \<le> e0"
proof (induction n arbitrary: e0)
  case 0
  then show ?case by simp
next
  case (Suc n)
  from Suc.IH [of "e0 - 1"] show ?case by auto
qed

lemma exponent_small:
  assumes "\<bar>x\<bar> < pow2 53"
  shows "exponent x \<le> 52" and "- 1022 \<le> exponent x"
proof -
  from exponent_from_cases [of 2045 1023 "\<bar>x\<bar>"]
  have c: "exponent x = - 1022 \<or> (pow2 (exponent x) \<le> \<bar>x\<bar> \<and> - 1022 \<le> exponent x)"
    by (simp add: exponent_def)
  then show "- 1022 \<le> exponent x" by auto
  from c show "exponent x \<le> 52"
  proof
    assume "exponent x = - 1022"
    then show ?thesis by simp
  next
    assume "pow2 (exponent x) \<le> \<bar>x\<bar> \<and> - 1022 \<le> exponent x"
    then have "pow2 (exponent x) \<le> \<bar>x\<bar>" ..
    from this assms have "pow2 (exponent x) < pow2 53" by (rule order.strict_trans1)
    then have "exponent x < 53" by (simp only: pow2_less_iff)
    then show ?thesis by simp
  qed
qed

lemma round_half_even_bounds: "\<lfloor>q\<rfloor> \<le> round_half_even q \<and> round_half_even q \<le> \<lceil>q\<rceil>"
proof -
  have "\<lfloor>q\<rfloor> + 1 \<le> \<lceil>q\<rceil>" if "1 / 2 \<le> q - of_int \<lfloor>q\<rfloor>"
  proof -
    from that have "of_int \<lfloor>q\<rfloor> < q" by simp
    then have "\<lfloor>q\<rfloor> < \<lceil>q\<rceil>" by (simp add: floor_less_iff less_ceiling_iff)
    then show ?thesis by simp
  qed
  moreover have "\<lfloor>q\<rfloor> \<le> \<lceil>q\<rceil>" by (rule floor_le_ceiling)
  ultimately show ?thesis
    by (auto simp: round_half_even_def Let_def)
qed

lemma round_half_even_int [simp]: "round_half_even (of_int n) = n"
  by (simp add: round_half_even_def)

text \<open>Rounding does not cross an integer, so it leaves the integers below \<open>2 ^ 53\<close> as they are.\<close>

lemma fl_ge_int:
  assumes x: "\<bar>x\<bar> < pow2 53" and n: "of_int n \<le> x"
  shows "of_int n \<le> fl x"
proof -
  define k where "k = 52 - exponent x"
  define u where "u = pow2 (exponent x - 52)"
  from exponent_small [OF x] have k: "0 \<le> k" by (simp add: k_def)
  have inv: "u * pow2 k = 1"
    unfolding u_def k_def using pow2_add [of "exponent x - 52" "52 - exponent x"] by (simp add: pow2_def)
  have upos: "0 < u" by (simp add: u_def)
  have xu: "x / u = x * pow2 k"
    using inv upos by (simp add: field_simps)
  have "of_int (n * 2 ^ nat k) = of_int n * pow2 k" using k by (simp add: pow2_nat)
  also have "\<dots> \<le> x * pow2 k" using n by (simp add: mult_right_mono)
  finally have "of_int (n * 2 ^ nat k) \<le> x / u" by (simp add: xu)
  then have "n * 2 ^ nat k \<le> \<lfloor>x / u\<rfloor>" by (simp add: le_floor_iff)
  also have "\<dots> \<le> round_half_even (x / u)" using round_half_even_bounds by blast
  finally have "real_of_int (n * 2 ^ nat k) \<le> of_int (round_half_even (x / u))" by linarith
  then have "real_of_int (n * 2 ^ nat k) * u \<le> of_int (round_half_even (x / u)) * u"
    using upos by (simp add: mult_right_mono)
  moreover have "real_of_int (n * 2 ^ nat k) * u = of_int n"
  proof -
    have "real_of_int (n * 2 ^ nat k) * u = of_int n * (u * pow2 k)"
      using k by (simp add: pow2_nat)
    then show ?thesis by (simp only: inv mult_1_right)
  qed
  ultimately show ?thesis unfolding fl_def u_def by (simp only:)
qed

lemma fl_le_int:
  assumes x: "\<bar>x\<bar> < pow2 53" and n: "x \<le> of_int n"
  shows "fl x \<le> of_int n"
proof -
  define k where "k = 52 - exponent x"
  define u where "u = pow2 (exponent x - 52)"
  from exponent_small [OF x] have k: "0 \<le> k" by (simp add: k_def)
  have inv: "u * pow2 k = 1"
    unfolding u_def k_def using pow2_add [of "exponent x - 52" "52 - exponent x"] by (simp add: pow2_def)
  have upos: "0 < u" by (simp add: u_def)
  have xu: "x / u = x * pow2 k"
    using inv upos by (simp add: field_simps)
  have "x * pow2 k \<le> of_int n * pow2 k" using n by (simp add: mult_right_mono)
  also have "\<dots> = of_int (n * 2 ^ nat k)" using k by (simp add: pow2_nat)
  finally have "x / u \<le> of_int (n * 2 ^ nat k)" by (simp add: xu)
  then have "\<lceil>x / u\<rceil> \<le> n * 2 ^ nat k" by (simp add: ceiling_le_iff)
  with round_half_even_bounds [of "x / u"] have "round_half_even (x / u) \<le> n * 2 ^ nat k" by linarith
  then have "real_of_int (round_half_even (x / u)) \<le> real_of_int (n * 2 ^ nat k)" by linarith
  then have "of_int (round_half_even (x / u)) * u \<le> real_of_int (n * 2 ^ nat k) * u"
    using upos by (simp add: mult_right_mono)
  moreover have "real_of_int (n * 2 ^ nat k) * u = of_int n"
  proof -
    have "real_of_int (n * 2 ^ nat k) * u = of_int n * (u * pow2 k)"
      using k by (simp add: pow2_nat)
    then show ?thesis by (simp only: inv mult_1_right)
  qed
  ultimately show ?thesis unfolding fl_def u_def by (simp only:)
qed

lemma fl_int: "\<bar>of_int n :: real\<bar> < pow2 53 \<Longrightarrow> fl (of_int n) = of_int n"
  by (rule antisym [OF fl_le_int fl_ge_int]) simp_all

lemma floor_fl:
  assumes "\<bar>x\<bar> < pow2 53"
  shows "\<lfloor>x\<rfloor> \<le> \<lfloor>fl x\<rfloor>" and "\<lfloor>fl x\<rfloor> \<le> \<lceil>x\<rceil>"
proof -
  have "of_int \<lfloor>x\<rfloor> \<le> fl x" by (rule fl_ge_int [OF assms]) simp
  then show "\<lfloor>x\<rfloor> \<le> \<lfloor>fl x\<rfloor>" by (simp add: le_floor_iff)
  have "fl x \<le> of_int \<lceil>x\<rceil>" by (rule fl_le_int [OF assms]) simp
  then show "\<lfloor>fl x\<rfloor> \<le> \<lceil>x\<rceil>" by (simp add: floor_le_iff) 
qed

lemma fl_nonneg: "0 \<le> x \<Longrightarrow> 0 \<le> fl x"
proof -
  assume x: "0 \<le> x"
  let ?q = "x / pow2 (exponent x - 52)"
  from x have "0 \<le> ?q" by (rule divide_nonneg_pos) (rule pow2_pos)
  then have "0 \<le> \<lfloor>?q\<rfloor>" by simp
  with round_half_even_bounds [of ?q] have "0 \<le> round_half_even ?q" by linarith
  then have "0 \<le> real_of_int (round_half_even ?q)" by simp
  moreover have "0 \<le> pow2 (exponent x - 52)" by (rule less_imp_le) (rule pow2_pos)
  ultimately show ?thesis unfolding fl_def by (rule mult_nonneg_nonneg)
qed

lemma fl_eval:
  "- 1022 \<le> e \<Longrightarrow> e \<le> 1023 \<Longrightarrow> pow2 e \<le> \<bar>x\<bar> \<Longrightarrow> \<bar>x\<bar> < pow2 (e + 1)
     \<Longrightarrow> fl x = of_int (round_half_even (x / pow2 (e - 52))) * pow2 (e - 52)"
  by (simp add: fl_def exponent_eq)

lemma fl_7_10: "fl (7 / 10) = 3152519739159347 / 4503599627370496"
  by (subst fl_eval [of "- 1"]) (simp_all add: pow2_def round_half_even_def)

lemma fl_7: "fl (3152519739159347 / 4503599627370496 * 10) = 7"
  by (subst fl_eval [of 2]) (simp_all add: pow2_def round_half_even_def)

lemma fl_numeral: "(numeral k :: real) < pow2 53 \<Longrightarrow> fl (numeral k) = numeral k"
  using fl_int [of "numeral k"] by simp

lemma fl_zero [simp]: "fl 0 = 0"
  by (simp add: fl_def round_half_even_def)

subsection \<open>The 3D compositing path\<close>


subsection \<open>fetchWithRetry\<close>

lemma attempts_3:
  "attempts fetch u 3 0 le s =
     (case try_fetch (fetch (calls s) u) of
        Inr r \<Rightarrow> ((Some r, le), s\<lparr>calls := calls s + 1, net_log := net_log s @ [Fetch u]\<rparr>)
      | Inl e0 \<Rightarrow>
         (case try_fetch (fetch (calls s + 1) u) of
            Inr r \<Rightarrow>
              ((Some r, Some e0),
               s\<lparr>calls := calls s + 2, net_log := net_log s @ [Fetch u, Sleep 1000, Fetch u]\<rparr>)
          | Inl e1 \<Rightarrow>
             (case try_fetch (fetch (calls s + 2) u) of
                Inr r \<Rightarrow>
                  ((Some r, Some e1),
                   s\<lparr>calls := calls s + 3,
                     net_log := net_log s @ [Fetch u, Sleep 1000, Fetch u, Sleep 2000, Fetch u]\<rparr>)
              | Inl e2 \<Rightarrow>
                  ((None, Some e2),
                   s\<lparr>calls := calls s + 3,
                     net_log := net_log s @ [Fetch u, Sleep 1000, Fetch u, Sleep 2000, Fetch u]\<rparr>))))"
  by (simp add: attempts.simps [of _ _ "3"] Let_def split: sum.splits)

lemma try_fetch_ok: "try_fetch x = Inr r \<Longrightarrow> ok r"
  by (auto simp: try_fetch_def split: fetch_result.splits if_splits)

lemma third_index:
  "\<not> k < 3 \<Longrightarrow> \<exists>j. k = 3 + j \<and> k div 3 = Suc (j div 3) \<and> k mod 3 = j mod 3"
  by (rule exI [of _ "k - 3"]) (simp add: le_div_geq le_mod_geq)

lemma take_within: "n \<le> length xs \<Longrightarrow> take n (xs @ ys) = take n xs"
  by simp

text \<open>
  One URL: the attempt that succeeds, with the failed attempts before it and the events
  up to it, or three failed attempts, the last of which gives \<^verbatim>\<open>lastError\<close>.
\<close>

lemma attempts_3_cases:
  assumes "attempts fetch u 3 0 le s = ((r, le'), s')"
  shows "(case r of
            Some resp \<Rightarrow> \<exists>k<3. (\<forall>j<k. isl (try_fetch (fetch (calls s + j) u)))
                \<and> try_fetch (fetch (calls s + k) u) = Inr resp \<and> calls s' = calls s + k + 1
                \<and> net_log s' = net_log s
                     @ take (2 * k + 1) [Fetch u, Sleep 1000, Fetch u, Sleep 2000, Fetch u]
          | None \<Rightarrow> (\<forall>j<3. isl (try_fetch (fetch (calls s + j) u)))
                \<and> try_fetch (fetch (calls s + 2) u) = Inl (the le') \<and> le' \<noteq> None
                \<and> calls s' = calls s + 3
                \<and> net_log s' = net_log s @ [Fetch u, Sleep 1000, Fetch u, Sleep 2000, Fetch u])"
proof (cases "try_fetch (fetch (calls s) u)")
  case (Inr r0)
  with assms have "r = Some r0" "calls s' = calls s + 0 + 1" "net_log s' = net_log s @ [Fetch u]"
    by (auto simp: attempts_3)
  with Inr show ?thesis by (auto intro!: exI [of _ 0])
next
  case e0: (Inl e0)
  have f0: "isl (try_fetch (fetch (calls s + 0) u))" using e0 by simp
  show ?thesis
  proof (cases "try_fetch (fetch (calls s + 1) u)")
    case (Inr r1)
    with e0 assms have "r = Some r1" "calls s' = calls s + 1 + 1"
      "net_log s' = net_log s @ [Fetch u, Sleep 1000, Fetch u]"
      by (auto simp: attempts_3)
    moreover have "\<forall>j<1. isl (try_fetch (fetch (calls s + j) u))" using f0 by simp
    ultimately show ?thesis using Inr by (auto intro!: exI [of _ 1])
  next
    case e1: (Inl e1)
    have f1: "isl (try_fetch (fetch (calls s + 1) u))" using e1 by simp
    have lt2: "isl (try_fetch (fetch (calls s + j) u))" if "j < 2" for j
    proof -
      from that consider "j = 0" | "j = 1" by linarith
      then show ?thesis using f0 f1 by cases auto
    qed
    show ?thesis
    proof (cases "try_fetch (fetch (calls s + 2) u)")
      case (Inr r2)
      with e0 e1 assms have "r = Some r2" "calls s' = calls s + 2 + 1"
        "net_log s' = net_log s @ [Fetch u, Sleep 1000, Fetch u, Sleep 2000, Fetch u]"
        by (auto simp: attempts_3)
      moreover have "\<forall>j<2. isl (try_fetch (fetch (calls s + j) u))" using lt2 by simp
      ultimately show ?thesis using Inr by (auto intro!: exI [of _ 2])
    next
      case e2: (Inl e2)
      with e0 e1 assms have r: "r = None" "le' = Some e2" "calls s' = calls s + 3"
        "net_log s' = net_log s @ [Fetch u, Sleep 1000, Fetch u, Sleep 2000, Fetch u]"
        by (auto simp: attempts_3)
      have "isl (try_fetch (fetch (calls s + j) u))" if "j < 3" for j
      proof -
        from that consider "j < 2" | "j = 2" by linarith
        then show ?thesis using lt2 e2 by cases auto
      qed
      with r e2 show ?thesis by simp
    qed
  qed
qed

lemma urls_loop_3:
  "urls_loop fetch urls 3 le s = ((r, le'), s') \<Longrightarrow>
     (\<exists>evs. net_log s' = net_log s @ evs
        \<and> (case r of
              None \<Rightarrow> evs = retry_plan urls \<and> calls s' = calls s + 3 * length urls
                 \<and> (\<forall>k<3 * length urls. isl (try_fetch (fetch (calls s + k) (urls ! (k div 3)))))
                 \<and> (if urls = [] then le' = le
                     else le' \<noteq> None
                       \<and> try_fetch (fetch (calls s + 3 * length urls - 1) (last urls)) = Inl (the le'))
            | Some resp \<Rightarrow> \<exists>k<3 * length urls.
                   (\<forall>j<k. isl (try_fetch (fetch (calls s + j) (urls ! (j div 3)))))
                 \<and> try_fetch (fetch (calls s + k) (urls ! (k div 3))) = Inr resp
                 \<and> calls s' = calls s + k + 1
                 \<and> evs = take (5 * (k div 3) + 2 * (k mod 3) + 1) (retry_plan urls)))"
proof (induction urls arbitrary: le s)
  case Nil
  then show ?case by auto
next
  case (Cons u urls)
  let ?one = "[Fetch u, Sleep 1000, Fetch u, Sleep 2000, Fetch u]"
  let ?fails = "\<lambda>j. isl (try_fetch (fetch (calls s + j) ((u # urls) ! (j div 3))))"
  show ?case
  proof (cases "attempts fetch u 3 0 le s")
    case (Pair a s1)
    obtain r1 le1 where a: "a = (r1, le1)" by (cases a)
    note att = attempts_3_cases [OF Pair [unfolded a]]
    show ?thesis
    proof (cases r1)
      case (Some resp)
      with Pair a Cons.prems have eq: "r = Some resp" "s' = s1" by auto
      from att Some obtain k where k: "k < 3"
        "\<forall>j<k. isl (try_fetch (fetch (calls s + j) u))"
        "try_fetch (fetch (calls s + k) u) = Inr resp" "calls s1 = calls s + k + 1"
        "net_log s1 = net_log s @ take (2 * k + 1) ?one" by auto
      from k(1) have d: "k div 3 = 0" "k mod 3 = k" by simp_all
      have lt: "j div 3 = 0" if "j < k" for j using that k(1) by simp
      have 1: "k < 3 * length (u # urls)" using k(1) by simp
      have 2: "\<forall>j<k. ?fails j" using k(2) lt by simp
      have 3: "try_fetch (fetch (calls s + k) ((u # urls) ! (k div 3))) = Inr resp"
        using k(3) d by simp
      have "2 * k + 1 \<le> length ?one" using k(1) by simp
      then have "take (2 * k + 1) (?one @ retry_plan urls) = take (2 * k + 1) ?one"
        by (rule take_within)
      moreover have "retry_plan (u # urls) = ?one @ retry_plan urls" by simp
      moreover have "5 * (k div 3) + 2 * (k mod 3) + 1 = 2 * k + 1" unfolding d by simp
      ultimately have 4: "take (2 * k + 1) ?one
           = take (5 * (k div 3) + 2 * (k mod 3) + 1) (retry_plan (u # urls))"
        by (simp only:)
      from 1 2 3 4 k(4,5) eq show ?thesis by auto
    next
      case None
      with Pair a Cons.prems have rest: "urls_loop fetch urls 3 le1 s1 = ((r, le'), s')" by auto
      from att None have f3: "\<And>j. j < 3 \<Longrightarrow> isl (try_fetch (fetch (calls s + j) u))"
        and last1: "try_fetch (fetch (calls s + 2) u) = Inl (the le1)" "le1 \<noteq> None"
        and s1: "calls s1 = calls s + 3" "net_log s1 = net_log s @ ?one" by auto
      have low: "?fails j" if "j < 3" for j
      proof -
        from that have "j div 3 = 0" by simp
        with f3 [OF that] show ?thesis by simp
      qed
      have shift: "?fails (3 + j) \<longleftrightarrow> isl (try_fetch (fetch (calls s1 + j) (urls ! (j div 3))))" for j
        using s1(1) by (simp add: add.assoc)
      from Cons.IH [OF rest] obtain evs where evs: "net_log s' = net_log s1 @ evs"
        and c: "(case r of
              None \<Rightarrow> evs = retry_plan urls \<and> calls s' = calls s1 + 3 * length urls
                 \<and> (\<forall>k<3 * length urls. isl (try_fetch (fetch (calls s1 + k) (urls ! (k div 3)))))
                 \<and> (if urls = [] then le' = le1
                     else le' \<noteq> None
                       \<and> try_fetch (fetch (calls s1 + 3 * length urls - 1) (last urls)) = Inl (the le'))
            | Some resp \<Rightarrow> \<exists>k<3 * length urls.
                   (\<forall>j<k. isl (try_fetch (fetch (calls s1 + j) (urls ! (j div 3)))))
                 \<and> try_fetch (fetch (calls s1 + k) (urls ! (k div 3))) = Inr resp
                 \<and> calls s' = calls s1 + k + 1
                 \<and> evs = take (5 * (k div 3) + 2 * (k mod 3) + 1) (retry_plan urls))" by blast
      have 1: "net_log s' = net_log s @ (?one @ evs)" using evs s1 by simp
      have 3: "(case r of
              None \<Rightarrow> ?one @ evs = retry_plan (u # urls)
                 \<and> calls s' = calls s + 3 * length (u # urls)
                 \<and> (\<forall>k<3 * length (u # urls). ?fails k)
                 \<and> (if u # urls = [] then le' = le
                     else le' \<noteq> None
                       \<and> try_fetch (fetch (calls s + 3 * length (u # urls) - 1) (last (u # urls)))
                            = Inl (the le'))
            | Some resp \<Rightarrow> \<exists>k<3 * length (u # urls).
                   (\<forall>j<k. ?fails j)
                 \<and> try_fetch (fetch (calls s + k) ((u # urls) ! (k div 3))) = Inr resp
                 \<and> calls s' = calls s + k + 1
                 \<and> ?one @ evs = take (5 * (k div 3) + 2 * (k mod 3) + 1) (retry_plan (u # urls)))"
      proof (cases r)
        case None': None
        with c have c': "evs = retry_plan urls" "calls s' = calls s1 + 3 * length urls"
          "\<And>k. k < 3 * length urls \<Longrightarrow> isl (try_fetch (fetch (calls s1 + k) (urls ! (k div 3))))"
          and le: "if urls = [] then le' = le1
                     else le' \<noteq> None
                       \<and> try_fetch (fetch (calls s1 + 3 * length urls - 1) (last urls)) = Inl (the le')"
          by auto
        have all: "\<forall>k<3 * length (u # urls). ?fails k"
        proof (intro allI impI)
          fix k assume k: "k < 3 * length (u # urls)"
          show "?fails k"
          proof (cases "k < 3")
            case True
            then show ?thesis by (rule low)
          next
            case False
            from third_index [OF this] obtain j where j: "k = 3 + j" by blast
            with k have "j < 3 * length urls" by simp
            from c'(3) [OF this] show ?thesis unfolding j shift .
          qed
        qed
        have lastE: "le' \<noteq> None
              \<and> try_fetch (fetch (calls s + 3 * length (u # urls) - 1) (last (u # urls))) = Inl (the le')"
        proof (cases "urls = []")
          case True
          with le last1 show ?thesis by simp
        next
          case False
          then have "0 < length urls" by simp
          then have "calls s1 + 3 * length urls - 1 = calls s + 3 * length (u # urls) - 1"
            using s1(1) by simp
          with le False show ?thesis by simp
        qed
        from None' c' all lastE s1 show ?thesis by simp
      next
        case (Some resp)
        with c obtain k where k: "k < 3 * length urls"
          "\<And>j. j < k \<Longrightarrow> isl (try_fetch (fetch (calls s1 + j) (urls ! (j div 3))))"
          "try_fetch (fetch (calls s1 + k) (urls ! (k div 3))) = Inr resp"
          "calls s' = calls s1 + k + 1"
          "evs = take (5 * (k div 3) + 2 * (k mod 3) + 1) (retry_plan urls)" by auto
        have d: "(3 + k) div 3 = Suc (k div 3)" "(3 + k) mod 3 = k mod 3" by simp_all
        have a1: "3 + k < 3 * length (u # urls)" using k(1) by simp
        have a2: "\<forall>j<3 + k. ?fails j"
        proof (intro allI impI)
          fix j assume j: "j < 3 + k"
          show "?fails j"
          proof (cases "j < 3")
            case True
            then show ?thesis by (rule low)
          next
            case False
            from third_index [OF this] obtain j' where j': "j = 3 + j'" by blast
            with j have "j' < k" by simp
            from k(2) [OF this] show ?thesis unfolding j' shift .
          qed
        qed
        have a3: "try_fetch (fetch (calls s + (3 + k)) ((u # urls) ! ((3 + k) div 3))) = Inr resp"
          using k(3) s1(1) by (simp add: add.assoc)
        have a4: "calls s' = calls s + (3 + k) + 1" using k(4) s1(1) by simp
        have "5 * ((3 + k) div 3) + 2 * ((3 + k) mod 3) + 1
                = length ?one + (5 * (k div 3) + 2 * (k mod 3) + 1)"
          unfolding d by simp
        then have "take (5 * ((3 + k) div 3) + 2 * ((3 + k) mod 3) + 1) (?one @ retry_plan urls)
                = ?one @ take (5 * (k div 3) + 2 * (k mod 3) + 1) (retry_plan urls)"
          by (simp only: take_append) simp
        then have a5: "?one @ evs
            = take (5 * ((3 + k) div 3) + 2 * ((3 + k) mod 3) + 1) (retry_plan (u # urls))"
          using k(5) by simp
        from a1 a2 a3 a4 a5 have "\<exists>k'<3 * length (u # urls).
                   (\<forall>j<k'. ?fails j)
                 \<and> try_fetch (fetch (calls s + k') ((u # urls) ! (k' div 3))) = Inr resp
                 \<and> calls s' = calls s + k' + 1
                 \<and> ?one @ evs = take (5 * (k' div 3) + 2 * (k' mod 3) + 1) (retry_plan (u # urls))"
          by (intro exI [of _ "3 + k"] conjI)
        with Some show ?thesis by simp
      qed
      from 1 3 show ?thesis by blast
    qed
  qed
qed

text \<open>
  C5, as the code has it: on a list of URLs (for each resource the primary CDN, then the
  fallback) \<^verbatim>\<open>fetchWithRetry\<close> goes through the URLs in order, with up to three attempts at
  each; it waits 1 s after the first failed attempt at a URL and 2 s after the second, and
  nothing after the third, before it moves to the next URL.  It fails only when all three
  attempts at every URL have been made and have failed, and then with the error of the
  last attempt (with a fixed error when there is no URL).  Otherwise it returns the
  response of the first attempt that succeeds, which is \<^verbatim>\<open>ok\<close>: every attempt before it
  has failed, and the fetches and waits are those of the plan up to that attempt.
\<close>

theorem fetchWithRetry_backoff:
  assumes "fetchWithRetry fetch urls 3 s = (res, s')"
  shows "\<exists>evs. net_log s' = net_log s @ evs
           \<and> (case res of
                 Inl e \<Rightarrow> evs = retry_plan urls \<and> calls s' = calls s + 3 * length urls
                   \<and> (\<forall>k<3 * length urls.
                         isl (try_fetch (fetch (calls s + k) (urls ! (k div 3)))))
                   \<and> (if urls = [] then e = Err ''Failed to fetch after all retries''
                       else try_fetch (fetch (calls s + 3 * length urls - 1) (last urls)) = Inl e)
               | Inr resp \<Rightarrow> ok resp
                   \<and> (\<exists>k<3 * length urls.
                         (\<forall>j<k. isl (try_fetch (fetch (calls s + j) (urls ! (j div 3)))))
                       \<and> try_fetch (fetch (calls s + k) (urls ! (k div 3))) = Inr resp
                       \<and> calls s' = calls s + k + 1
                       \<and> evs = take (5 * (k div 3) + 2 * (k mod 3) + 1) (retry_plan urls)))"
proof -
  obtain r le s1 where u: "urls_loop fetch urls 3 None s = ((r, le), s1)"
    by (metis surj_pair)
  from urls_loop_3 [OF u] obtain evs where evs: "net_log s1 = net_log s @ evs"
    and c: "(case r of
              None \<Rightarrow> evs = retry_plan urls \<and> calls s1 = calls s + 3 * length urls
                 \<and> (\<forall>k<3 * length urls. isl (try_fetch (fetch (calls s + k) (urls ! (k div 3)))))
                 \<and> (if urls = [] then le = None
                     else le \<noteq> None
                       \<and> try_fetch (fetch (calls s + 3 * length urls - 1) (last urls)) = Inl (the le))
            | Some resp \<Rightarrow> \<exists>k<3 * length urls.
                   (\<forall>j<k. isl (try_fetch (fetch (calls s + j) (urls ! (j div 3)))))
                 \<and> try_fetch (fetch (calls s + k) (urls ! (k div 3))) = Inr resp
                 \<and> calls s1 = calls s + k + 1
                 \<and> evs = take (5 * (k div 3) + 2 * (k mod 3) + 1) (retry_plan urls))" by blast
  show ?thesis
  proof (cases r)
    case None
    with u assms have s': "s' = s1"
      and res: "res = Inl (case le of Some err \<Rightarrow> err | None \<Rightarrow> Err ''Failed to fetch after all retries'')"
      by (auto simp: fetchWithRetry_def)
    from None c have c': "evs = retry_plan urls" "calls s1 = calls s + 3 * length urls"
      "\<forall>k<3 * length urls. isl (try_fetch (fetch (calls s + k) (urls ! (k div 3))))"
      and le: "if urls = [] then le = None
                     else le \<noteq> None
                       \<and> try_fetch (fetch (calls s + 3 * length urls - 1) (last urls)) = Inl (the le)"
      by auto
    have "if urls = [] then (case le of Some err \<Rightarrow> err | None \<Rightarrow> Err ''Failed to fetch after all retries'')
                 = Err ''Failed to fetch after all retries''
          else try_fetch (fetch (calls s + 3 * length urls - 1) (last urls))
                 = Inl (case le of Some err \<Rightarrow> err | None \<Rightarrow> Err ''Failed to fetch after all retries'')"
      using le by (cases le) (auto split: if_splits)
    with c' evs s' res show ?thesis by auto
  next
    case (Some resp)
    with u assms have "s' = s1" "res = Inr resp" by (auto simp: fetchWithRetry_def)
    moreover from Some c have "ok resp" by (auto dest: try_fetch_ok)
    ultimately show ?thesis using Some c evs by auto
  qed
qed


lemma unreachable_run:
  "fetchWithRetry unreachable [''primary'', ''fallback''] 3 \<lparr>calls = 0, net_log = []\<rparr> =
     (Inl (Err ''Failed to fetch''),
      \<lparr>calls = 6,
       net_log = [Fetch ''primary'', Sleep 1000, Fetch ''primary'', Sleep 2000, Fetch ''primary'',
                  Fetch ''fallback'', Sleep 1000, Fetch ''fallback'', Sleep 2000, Fetch ''fallback'']\<rparr>)"
  by (simp add: fetchWithRetry_def attempts_3 unreachable_def try_fetch_def)

lemma degraded_run:
  "fetchWithRetry degraded [''primary'', ''fallback''] 3 \<lparr>calls = 0, net_log = []\<rparr> =
     (Inl (Err (''HTTP error! status: '' @ toString 503)),
      \<lparr>calls = 6,
       net_log = [Fetch ''primary'', Sleep 1000, Fetch ''primary'', Sleep 2000, Fetch ''primary'',
                  Fetch ''fallback'', Sleep 1000, Fetch ''fallback'', Sleep 2000, Fetch ''fallback'']\<rparr>)"
  by (simp add: fetchWithRetry_def attempts_3 degraded_def try_fetch_def)

theorem fetchWithRetry_backoff_witness:
  "fetchWithRetry degraded [''primary'', ''fallback''] 3 \<lparr>calls = 0, net_log = []\<rparr> =
     (Inl (Err (''HTTP error! status: '' @ toString 503)),
      \<lparr>calls = 6,
       net_log = [Fetch ''primary'', Sleep 1000, Fetch ''primary'', Sleep 2000, Fetch ''primary'',
                  Fetch ''fallback'', Sleep 1000, Fetch ''fallback'', Sleep 2000, Fetch ''fallback'']\<rparr>)
   \<and> try_fetch (degraded 0 ''primary'') = Inl (Err ''Failed to fetch'')
   \<and> try_fetch (degraded 5 ''fallback'') = Inl (Err (''HTTP error! status: '' @ toString 503))"
proof -
  from fetchWithRetry_backoff [OF degraded_run]
  have "try_fetch (degraded (0 + 3 * length [''primary'', ''fallback''] - 1)
                     (last [''primary'', ''fallback'']))
          = Inl (Err (''HTTP error! status: '' @ toString 503))"
    by simp
  then have "try_fetch (degraded 5 ''fallback'') = Inl (Err (''HTTP error! status: '' @ toString 503))"
    by simp
  moreover have "try_fetch (degraded 0 ''primary'') = Inl (Err ''Failed to fetch'')"
    by (simp add: degraded_def try_fetch_def)
  ultimately show ?thesis using degraded_run by simp
qed

text \<open>
  There is no third delay, of 4 s, before the next URL is tried.  With both sources
  unreachable the code waits 1 s and 2 s at each URL and never 4 s: after the third
  attempt at the primary URL the next event is the first attempt at the fallback URL.
\<close>

theorem fetchWithRetry_no_third_delay:
  "net_log (snd (fetchWithRetry unreachable [''primary'', ''fallback''] 3
                  \<lparr>calls = 0, net_log = []\<rparr>)) =
     [Fetch ''primary'', Sleep 1000, Fetch ''primary'', Sleep 2000, Fetch ''primary'',
      Fetch ''fallback'', Sleep 1000, Fetch ''fallback'', Sleep 2000, Fetch ''fallback'']
   \<and> Sleep 4000 \<notin> set (net_log (snd (fetchWithRetry unreachable [''primary'', ''fallback''] 3
                  \<lparr>calls = 0, net_log = []\<rparr>)))"
  by (simp add: unreachable_run)

subsection \<open>getFFmpeg\<close>

lemma inv_init: "session_inv init_session"
  by (simp add: session_inv_def init_session_def)

lemma inv_getFFmpeg: "session_inv s \<Longrightarrow> getFFmpeg s = (r, s') \<Longrightarrow> session_inv s'"
  by (auto simp: session_inv_def getFFmpeg_def Let_def nth_append intro: less_SucI
      split: option.splits bool.splits if_splits)

lemma inv_settle: "session_inv s \<Longrightarrow> session_inv (settle env s)"
  by (auto simp: session_inv_def settle_def Let_def split: option.splits sum.splits prod.splits)

lemma inv_run: "session_inv s \<Longrightarrow> run acts s = (rs, s') \<Longrightarrow> session_inv s'"
proof (induction acts arbitrary: s rs s')
  case Nil
  then show ?case by simp
next
  case (Cons a acts)
  show ?case
  proof (cases a)
    case Call
    obtain r s1 where g: "getFFmpeg s = (r, s1)" by (cases "getFFmpeg s")
    obtain rs1 s2 where r: "run acts s1 = (rs1, s2)" by (cases "run acts s1")
    from Cons.prems(2) Call g r have "s' = s2" by simp
    with Cons.IH [OF inv_getFFmpeg [OF Cons.prems(1) g] r] show ?thesis by simp
  next
    case (Settle env)
    with Cons.prems(2) have "run acts (settle env s) = (rs, s')" by simp
    from Cons.IH [OF inv_settle [OF Cons.prems(1)] this] show ?thesis .
  qed
qed

text \<open>
  C3 at two calls in a row on the fresh module: the first call starts the one
  initialization and is given the shared promise, still pending; the second call is not
  given that promise but the instance itself, at once, and this instance is not loaded.
\<close>

theorem getFFmpeg_second_caller_unloaded:
  "run [Call, Call] init_session =
     ([Awaits 0, Instance 0],
      \<lparr>ffmpeg = Some 0, isLoading = True, loadingPromise = Some 0, instances = 1, loaded = [],
       promises = [Pending], started = 1, network = \<lparr>calls = 0, net_log = []\<rparr>\<rparr>)"
  by (simp add: getFFmpeg_def init_session_def)

text \<open>
  The same in every state that a run reaches with an initialization in flight: a caller
  is handed the instance under construction and not the pending promise.
\<close>

lemma getFFmpeg_while_loading:
  assumes "run acts init_session = (rs, s)" and "loadingPromise s = Some p"
  shows "\<exists>h. getFFmpeg s = (Instance h, s) \<and> h \<notin> set (loaded s) \<and> promises s ! p = Pending"
proof -
  have "session_inv s" using inv_run [OF inv_init assms(1)] .
  with assms(2) show ?thesis
    by (auto simp: session_inv_def getFFmpeg_def)
qed

text \<open>
  C6, as the code has it: when the initialization in flight fails with a cause, whatever
  step of it failed, the module variable \<^verbatim>\<open>ffmpeg\<close> is cleared (the instance under
  construction is dropped and was never loaded), \<^verbatim>\<open>isLoading\<close> and \<^verbatim>\<open>loadingPromise\<close> are
  cleared, and the shared promise is rejected: with an error whose message is the cause's
  message after a fixed prefix when the cause is an \<^verbatim>\<open>Error\<close>, and with one fixed error,
  which has nothing of the cause, when it is not.  The next call of \<^verbatim>\<open>getFFmpeg\<close> then
  starts a new initialization: a new instance, a new pending promise, one more sequence
  started.
\<close>

theorem getFFmpeg_failure_resets:
  assumes "run acts init_session = (rs, s)"
    and "loadingPromise s = Some p"
    and "try_body env (ffmpeg s \<noteq> None) (network s) = (Inl cause, n)"
  shows "ffmpeg (settle env s) = None \<and> \<not> isLoading (settle env s)
     \<and> loadingPromise (settle env s) = None
     \<and> promises (settle env s) ! p =
          Rejected (case cause of
                      Err m \<Rightarrow> Err (''FFmpeg initialization failed: '' @ m)
                    | Other v \<Rightarrow>
                        Err ''Failed to initialize video processing. Please try again later.'')
     \<and> loaded (settle env s) = loaded s
     \<and> (\<exists>h. ffmpeg s = Some h \<and> h \<notin> set (loaded s)
          \<and> getFFmpeg (settle env s) =
               (Awaits (length (promises s)),
                (settle env s)\<lparr>isLoading := True, ffmpeg := Some (instances s),
                   instances := instances s + 1,
                   loadingPromise := Some (length (promises s)),
                   promises := promises (settle env s) @ [Pending],
                   started := started s + 1\<rparr>)
          \<and> h \<noteq> instances s \<and> p \<noteq> length (promises s))"
proof -
  have inv: "session_inv s" using inv_run [OF inv_init assms(1)] .
  from inv assms(2) obtain h where h: "ffmpeg s = Some h" "h \<notin> set (loaded s)"
      "h < instances s" "p < length (promises s)" "isLoading s"
    by (auto simp: session_inv_def)
  have st: "settle env s =
      s\<lparr>ffmpeg := None, promises := (promises s)[p := Rejected (init_error cause)],
        network := n, isLoading := False, loadingPromise := None\<rparr>"
    using assms(2,3) by (simp add: settle_def)
  show ?thesis
    using h by (simp add: st getFFmpeg_def init_error_def Let_def)
qed

lemma offline_try_body:
  "fst (try_body offline True \<lparr>calls = 0, net_log = []\<rparr>) = Inl (Err ''Failed to fetch'')"
  by (simp add: try_body_def offline_def fetchWithRetry_def attempts_3 unreachable_def
      try_fetch_def core_urls_def wasm_urls_def worker_urls_def)

theorem getFFmpeg_failure_resets_witness:
  "run [Call] init_session =
     ([Awaits 0],
      \<lparr>ffmpeg = Some 0, isLoading = True, loadingPromise = Some 0, instances = 1, loaded = [],
       promises = [Pending], started = 1, network = \<lparr>calls = 0, net_log = []\<rparr>\<rparr>)
   \<and> fst (try_body offline True \<lparr>calls = 0, net_log = []\<rparr>) = Inl (Err ''Failed to fetch'')
   \<and> ffmpeg (settle offline (snd (run [Call] init_session))) = None
   \<and> promises (settle offline (snd (run [Call] init_session))) ! 0 =
       Rejected (Err ''FFmpeg initialization failed: Failed to fetch'')
   \<and> fst (getFFmpeg (settle offline (snd (run [Call] init_session)))) = Awaits 1"
proof -
  let ?s = "\<lparr>ffmpeg = Some 0, isLoading = True, loadingPromise = Some 0, instances = 1,
       loaded = [], promises = [Pending], started = 1,
       network = \<lparr>calls = 0, net_log = []\<rparr>\<rparr>"
  have r: "run [Call] init_session = ([Awaits 0], ?s)"
    by (simp add: getFFmpeg_def init_session_def)
  have lp: "loadingPromise ?s = Some 0" by simp
  obtain n where t: "try_body offline (ffmpeg ?s \<noteq> None) (network ?s) = (Inl (Err ''Failed to fetch''), n)"
    using offline_try_body by (cases "try_body offline True \<lparr>calls = 0, net_log = []\<rparr>") auto
  from getFFmpeg_failure_resets [OF r lp t]
  show ?thesis using r offline_try_body by (simp add: init_error_def)
qed

text \<open>
  A cause that is not an \<^verbatim>\<open>Error\<close> is not wrapped.  When every resource is fetched and
  \<^verbatim>\<open>ffmpeg.load\<close> rejects with another value, the shared promise is rejected with the
  fixed error, in which the cause does not occur.
\<close>

theorem getFFmpeg_cause_not_wrapped:
  "fst (try_body load_rejects True \<lparr>calls = 0, net_log = []\<rparr>) = Inl (Other ''worker terminated'')
   \<and> promises (settle load_rejects (snd (run [Call] init_session))) ! 0 =
       Rejected (Err ''Failed to initialize video processing. Please try again later.'')
   \<and> ffmpeg (settle load_rejects (snd (run [Call] init_session))) = None"
  by (simp add: try_body_def load_rejects_def fetchWithRetry_def attempts_3 reachable_def
      try_fetch_def core_urls_def wasm_urls_def worker_urls_def settle_def getFFmpeg_def
      init_session_def init_error_def)

subsection \<open>Frame names\<close>

lemma digit_charI: "of_char c = (48 + d :: nat) \<Longrightarrow> digit_char d = c"
proof -
  assume "of_char c = (48 + d :: nat)"
  then have "digit_char d = char_of (of_char c :: nat)" by (simp add: digit_char_def)
  then show ?thesis by simp
qed

lemma digit_char_simps:
  "digit_char 0 = CHR ''0''" "digit_char (Suc 0) = CHR ''1''" "digit_char 2 = CHR ''2''"
  "digit_char 3 = CHR ''3''" "digit_char 4 = CHR ''4''" "digit_char 5 = CHR ''5''"
  "digit_char 6 = CHR ''6''" "digit_char 7 = CHR ''7''" "digit_char 8 = CHR ''8''"
  "digit_char 9 = CHR ''9''"
  by (rule digit_charI, simp)+

lemma replicate_numeral: "replicate (numeral k) x = x # replicate (pred_numeral k) x"
  by (simp add: numeral_eq_Suc)

lemmas frame_eval = frameName_def padStart_def toString.simps digit_char_simps replicate_numeral

lemma digit_char_less: "a < 10 \<Longrightarrow> b < 10 \<Longrightarrow> digit_char a < digit_char b \<longleftrightarrow> a < b"
  by (simp add: digit_char_def less_char_def)

lemma length_fixed [simp]: "length (fixed k n) = k"
  by (induction k arbitrary: n) auto

lemma fixed_zero: "fixed k 0 = replicate k CHR ''0''"
  by (induction k) (auto simp: digit_char_simps replicate_append_same)

lemma padStart_snoc: "padStart (Suc k) c (s @ [d]) = padStart k c s @ [d]"
  by (simp add: padStart_def)

lemma padStart_fixed:
  "n < 10 ^ Suc k \<Longrightarrow> padStart (Suc k) CHR ''0'' (toString n) = fixed (Suc k) n"
proof (induction k arbitrary: n)
  case 0
  then show ?case by (simp add: toString.simps [of n] padStart_def)
next
  case (Suc k)
  show ?case
  proof (cases "n < 10")
    case True
    then show ?thesis
      by (simp add: toString.simps [of n] padStart_def fixed_zero replicate_append_same)
  next
    case False
    from Suc.prems have "n div 10 < 10 ^ Suc k" by (simp add: less_mult_imp_div_less)
    from Suc.IH [OF this] False show ?thesis
      by (simp add: toString.simps [of n] padStart_snoc)
  qed
qed

lemma fixed_less: "a < b \<Longrightarrow> b < 10 ^ k \<Longrightarrow> fixed k a < fixed k b"
proof (induction k arbitrary: a b)
  case 0
  then show ?case by simp
next
  case (Suc k)
  show ?case
  proof (cases "a div 10 < b div 10")
    case True
    from Suc.prems have "b div 10 < 10 ^ k" by (simp add: less_mult_imp_div_less)
    from Suc.IH [OF True this]
    have "(fixed k (a div 10), fixed k (b div 10)) \<in> lexord {(u, v). u < v}"
      by (simp add: list_less_def)
    then have "(fixed k (a div 10) @ [digit_char (a mod 10)],
                fixed k (b div 10) @ [digit_char (b mod 10)]) \<in> lexord {(u, v). u < v}"
      by (rule lexord_sufI) simp
    then show ?thesis by (simp add: list_less_def)
  next
    case False
    from Suc.prems(1) have "a div 10 \<le> b div 10" by (simp add: div_le_mono)
    with False have eq: "a div 10 = b div 10" by simp
    have m: "a mod 10 < b mod 10"
    proof (rule ccontr)
      assume "\<not> a mod 10 < b mod 10"
      then have le: "b mod 10 \<le> a mod 10" by simp
      have "b = 10 * (b div 10) + b mod 10" by simp
      also have "\<dots> \<le> 10 * (b div 10) + a mod 10" using le by (simp only: add_le_cancel_left)
      also have "\<dots> = 10 * (a div 10) + a mod 10" using eq by simp
      also have "\<dots> = a" by simp
      finally show False using Suc.prems(1) by simp
    qed
    have "digit_char (a mod 10) < digit_char (b mod 10)"
      using m by (simp add: digit_char_less)
    then show ?thesis using eq by (simp add: list_less_def lexord_same_pref_iff)
  qed
qed

lemma padStart_6: "n < 1000000 \<Longrightarrow> padStart 6 CHR ''0'' (toString n) = fixed 6 n"
proof -
  assume "n < 1000000"
  then have n: "n < 10 ^ Suc 5" by simp
  have six: "Suc 5 = 6" by simp
  from padStart_fixed [OF n] show ?thesis
    unfolding six .
qed

text \<open>
  C7, as the code has it: for frame indices \<open>i < j\<close> below one million, so for every pair
  of frames of an export of at most one million frames, the name of frame \<open>i\<close> comes
  before the name of frame \<open>j\<close> in the lexical order of strings.
\<close>

theorem frameName_lexical_order:
  assumes "i < j" and "j < 1000000"
  shows "frameName i < frameName j"
proof -
  have "fixed 6 i < fixed 6 j" using fixed_less [OF assms(1), of 6] assms(2) by simp
  then have "(fixed 6 i, fixed 6 j) \<in> lexord {(u, v). u < v}" by (simp add: list_less_def)
  then have "(fixed 6 i @ ''.png'', fixed 6 j @ ''.png'') \<in> lexord {(u, v). u < v}"
    by (rule lexord_sufI) simp
  then have "fixed 6 i @ ''.png'' < fixed 6 j @ ''.png''" by (simp add: list_less_def)
  then show ?thesis
    using assms by (simp add: frameName_def padStart_6 list_less_def lexord_same_pref_iff)
qed

theorem frameName_lexical_order_witness:
  "(9::nat) < 10 \<and> (10::nat) < 1000000 \<and> frameName 9 = ''frames/frame000009.png''
   \<and> frameName 10 = ''frames/frame000010.png'' \<and> frameName 9 < frameName 10"
proof -
  have "frameName 9 < frameName 10"
    by (rule frameName_lexical_order) simp_all
  then show ?thesis by (simp add: frame_eval)
qed

text \<open>
  \<^verbatim>\<open>padStart\<close> does not shorten a string: the index one million has seven digits, and its
  name comes before the name of the frame before it.  An export of 40000 seconds at 30
  frames per second has both frames.
\<close>

theorem frameName_seven_digits:
  "totalFrames long_export = 1200000
   \<and> frameName 999999 = ''frames/frame999999.png''
   \<and> frameName 1000000 = ''frames/frame1000000.png''
   \<and> (999999::nat) < 1000000
   \<and> \<not> frameName 999999 < frameName 1000000
   \<and> frameName 1000000 < frameName 999999"
proof -
  have t: "totalFrames long_export = 1200000"
    by (simp add: totalFrames_def long_export_def the_duration_def the_fps_def or_default_def
        fl_numeral pow2_def)
  have a: "frameName 999999 = ''frames/frame999999.png''"
    by (simp add: frame_eval)
  have b: "frameName 1000000 = ''frames/frame1000000.png''"
    by (simp add: frame_eval)
  show ?thesis
    by (simp add: t a b list_less_def less_char_def)
qed

subsection \<open>The animation timeline driver\<close>

lemma single_timeline:
  "add_animation [] a =
     (case tween_vars (anim_type a) of None \<Rightarrow> []
      | Some (f, t) \<Rightarrow> [\<lparr>from_vars = f, to_vars = t, tween_start = delay_of a,
                          tween_duration = duration_of a, tween_ease = ease_of a\<rparr>])"
  by (simp add: add_animation_def timeline_duration_def split: option.splits)



subsection \<open>Batches of the capture loop\<close>

lemma written_append [simp]: "written (xs @ ys) = written xs @ written ys"
  by (induction xs rule: written.induct) auto

lemma starts_append [simp]: "starts (xs @ ys) = starts xs @ starts ys"
  by (induction xs rule: starts.induct) auto

lemma same_but_refl: "same_but w w []"
  by (simp add: same_but_def)

lemma same_but_trans: "same_but w w1 s1 \<Longrightarrow> same_but w1 w2 s2 \<Longrightarrow> same_but w w2 (s1 @ s2)"
  by (simp add: same_but_def)

lemma map_of_fst: "map_of wr t = Some d \<Longrightarrow> t \<in> fst ` set wr"
  by (metis map_of_SomeD fst_conv image_eqI)

lemma map_of_None_fst: "map_of wr t = None \<Longrightarrow> t \<notin> fst ` set wr"
  by (simp add: map_of_eq_None_iff)

lemma task_step_ok:
  assumes "task_step e options t (bs, w) = Inr (bs', w')" and "batch_inv B bs seg"
  shows "\<exists>s. same_but w w' s \<and> batch_inv B bs' (seg @ s)
            \<and> t \<notin> set (fst bs') \<and> set (fst bs') \<subseteq> set (fst bs)
            \<and> (fst bs = [] \<longrightarrow> t \<notin> fst ` set (snd bs') \<and> fst ` set (snd bs') \<subseteq> fst ` set (snd bs))"
proof -
  obtain cap wr where bs: "bs = (cap, wr)" by (cases bs)
  show ?thesis
  proof (cases "t \<in> set cap")
    case True
    with assms(1) bs obtain d where d: "captureFrame e (render_frame options t) = Inr d"
      and r: "bs' = (remove1 t cap, wr @ [(t, d)])" "w' = emit [Captured t] w"
      by (auto simp: task_step_def split: sum.splits)
    have "same_but w w' [Captured t]" using r by (simp add: same_but_def emit_def)
    moreover have "batch_inv B bs' (seg @ [Captured t])"
      using assms(2) True bs r by (auto simp: batch_inv_def seg_ok_def)
    moreover have "t \<notin> set (fst bs')" "set (fst bs') \<subseteq> set (fst bs)"
      using assms(2) bs r by (auto simp: batch_inv_def)
    moreover have "fst bs \<noteq> []" using True bs by auto
    ultimately show ?thesis by blast
  next
    case False
    show ?thesis
    proof (cases "map_of wr t")
      case None
      with False assms(1) bs have r: "bs' = bs" "w' = w" by (auto simp: task_step_def)
      have "t \<notin> fst ` set wr" using None by (rule map_of_None_fst)
      with r bs False assms(2) same_but_refl [of w] show ?thesis by (intro exI [of _ "[]"]) auto
    next
      case (Some d)
      with False assms(1) bs have r: "bs' = (cap, filter (\<lambda>kd. fst kd \<noteq> t) wr)"
        "w' = emit [Written t (frameName t)] (w\<lparr>files := files w @ [frameName t]\<rparr>)"
        by (auto simp: task_step_def split: option.splits)
      have tin: "t \<in> fst ` set wr" using Some by (rule map_of_fst)
      have "same_but w w' [Written t (frameName t)]" using r by (simp add: same_but_def emit_def)
      moreover have "batch_inv B bs' (seg @ [Written t (frameName t)])"
        using assms(2) False bs r tin by (auto simp: batch_inv_def seg_ok_def)
      moreover have "t \<notin> set (fst bs')" "set (fst bs') \<subseteq> set (fst bs)"
        "t \<notin> fst ` set (snd bs')" "fst ` set (snd bs') \<subseteq> fst ` set (snd bs)"
        using False bs r by auto
      ultimately show ?thesis by blast
    qed
  qed
qed

lemma task_step_fail:
  assumes "task_step e options t (bs, w) = Inl (err, w')" and "batch_inv B bs seg"
  shows "\<exists>s. same_but w w' s \<and> seg_ok B (seg @ s)"
proof -
  obtain cap wr where bs: "bs = (cap, wr)" by (cases bs)
  from assms(1) bs have w': "w' = emit [TaskFailed t] w" and "t \<in> set cap \<or> t \<in> fst ` set wr"
    by (auto simp: task_step_def split: sum.splits option.splits if_splits dest: map_of_fst)
  with assms(2) bs have "t \<in> B" by (auto simp: batch_inv_def)
  with assms(2) bs have "seg_ok B (seg @ [TaskFailed t])" by (auto simp: batch_inv_def seg_ok_def)
  moreover have "same_but w w' [TaskFailed t]" using w' by (simp add: same_but_def emit_def)
  ultimately show ?thesis by blast
qed

lemma run_steps_ok:
  assumes "run_steps e options ts (bs, w) = Inr (bs', w')" and "batch_inv B bs seg"
  shows "\<exists>s. same_but w w' s \<and> batch_inv B bs' (seg @ s)
            \<and> set (fst bs') \<subseteq> set (fst bs) - set ts
            \<and> (fst bs = [] \<longrightarrow> fst ` set (snd bs') \<subseteq> fst ` set (snd bs) - set ts)"
  using assms
proof (induction ts arbitrary: bs w seg)
  case Nil
  then show ?case using same_but_refl [of w] by (intro exI [of _ "[]"]) auto
next
  case (Cons t ts)
  from Cons.prems(1) obtain bs1 w1 where st: "task_step e options t (bs, w) = Inr (bs1, w1)"
    and rest: "run_steps e options ts (bs1, w1) = Inr (bs', w')"
    by (auto split: sum.splits)
  from task_step_ok [OF st Cons.prems(2)] obtain s1 where s1: "same_but w w1 s1"
    "batch_inv B bs1 (seg @ s1)" "t \<notin> set (fst bs1)" "set (fst bs1) \<subseteq> set (fst bs)"
    "fst bs = [] \<longrightarrow> t \<notin> fst ` set (snd bs1) \<and> fst ` set (snd bs1) \<subseteq> fst ` set (snd bs)"
    by blast
  from Cons.IH [OF rest s1(2)] obtain s2 where s2: "same_but w1 w' s2"
    "batch_inv B bs' ((seg @ s1) @ s2)" "set (fst bs') \<subseteq> set (fst bs1) - set ts"
    "fst bs1 = [] \<longrightarrow> fst ` set (snd bs') \<subseteq> fst ` set (snd bs1) - set ts"
    by blast
  have a: "same_but w w' (s1 @ s2)" using s1(1) s2(1) by (rule same_but_trans)
  have b: "batch_inv B bs' (seg @ s1 @ s2)" using s2(2) by simp
  have c: "set (fst bs') \<subseteq> set (fst bs) - set (t # ts)" using s1(3,4) s2(3) by auto
  have d: "fst bs = [] \<longrightarrow> fst ` set (snd bs') \<subseteq> fst ` set (snd bs) - set (t # ts)"
  proof
    assume e: "fst bs = []"
    with s1(4) have "fst bs1 = []" by simp
    with s2(4) have 1: "fst ` set (snd bs') \<subseteq> fst ` set (snd bs1) - set ts" by simp
    from s1(5) e have 2: "t \<notin> fst ` set (snd bs1)" "fst ` set (snd bs1) \<subseteq> fst ` set (snd bs)"
      by simp_all
    have "fst ` set (snd bs') \<subseteq> fst ` set (snd bs) - insert t (set ts)"
      using 1 2 by blast
    then show "fst ` set (snd bs') \<subseteq> fst ` set (snd bs) - set (t # ts)" by simp
  qed
  from a b c d show ?case by blast
qed

lemma batch_inv_seg_ok: "batch_inv B bs seg \<Longrightarrow> seg_ok B seg"
  by (auto simp: batch_inv_def)

lemma run_steps_fail:
  assumes "run_steps e options ts (bs, w) = Inl (err, w')" and "batch_inv B bs seg"
  shows "\<exists>s. same_but w w' s \<and> seg_ok B (seg @ s)"
  using assms
proof (induction ts arbitrary: bs w seg)
  case Nil
  then show ?case by simp
next
  case (Cons t ts)
  show ?case
  proof (cases "task_step e options t (bs, w)")
    case (Inl f)
    with Cons.prems(1) have "task_step e options t (bs, w) = Inl (err, w')" by simp
    from task_step_fail [OF this Cons.prems(2)] show ?thesis .
  next
    case (Inr r)
    obtain bs1 w1 where r: "r = (bs1, w1)" by (cases r)
    with Inr Cons.prems(1) have rest: "run_steps e options ts (bs1, w1) = Inl (err, w')" by simp
    from task_step_ok [OF Inr [unfolded r] Cons.prems(2)] obtain s1 where s1: "same_but w w1 s1"
      "batch_inv B bs1 (seg @ s1)" by blast
    from Cons.IH [OF rest s1(2)] obtain s2 where s2: "same_but w1 w' s2" "seg_ok B ((seg @ s1) @ s2)"
      by blast
    have "same_but w w' (s1 @ s2)" using s1(1) s2(1) by (rule same_but_trans)
    with s2(2) show ?thesis by (intro exI [of _ "s1 @ s2"]) simp
  qed
qed

lemma run_steps_append:
  "run_steps e options (xs @ ys) bw =
     (case run_steps e options xs bw of Inl f \<Rightarrow> Inl f | Inr bw' \<Rightarrow> run_steps e options ys bw')"
  by (induction xs arbitrary: bw) (auto split: sum.splits)

lemma written_starts [simp]: "written (map (\<lambda>frame. CaptureStart frame (g frame)) fs) = []"
  by (induction fs) auto

lemma starts_starts [simp]: "starts (map (\<lambda>frame. CaptureStart frame (g frame)) fs) = fs"
  by (induction fs) auto

lemma batch_inv_init: "batch_inv {i..<i + n} ([i..<i + n], []) []"
  by (auto simp: batch_inv_def seg_ok_def)

lemma sub_diff_empty: "(A::nat set) \<subseteq> C - B \<Longrightarrow> C \<subseteq> B \<Longrightarrow> A = {}"
  by blast

lemma run_steps_split:
  assumes "run_steps e options (xs @ ys) bw = Inr r"
  shows "\<exists>m. run_steps e options xs bw = Inr m \<and> run_steps e options ys m = Inr r"
  using assms by (cases "run_steps e options xs bw") (simp_all add: run_steps_append)

lemma run_batch_ok:
  assumes "run_batch e options i n w = Inr w'"
  shows "\<exists>seg. same_but w w' (batch_starts options i n @ seg) \<and> seg_ok {i..<i + n} seg
           \<and> set (written seg) = {i..<i + n}"
proof -
  define b where "b = [i..<i + n]"
  define w1 where "w1 = emit (batch_starts options i n) w"
  have B: "set b = {i..<i + n}" by (simp add: b_def)
  have init: "batch_inv (set b) (b, []) []"
    unfolding B unfolding b_def by (rule batch_inv_init)
  from assms obtain bs' where r: "run_steps e options (schedule e i @ b @ b) ((b, []), w1) = Inr (bs', w')"
    by (simp add: run_batch_def Let_def b_def w1_def split: sum.splits prod.splits)
  from run_steps_split [OF r] obtain m0 where
    r0: "run_steps e options (schedule e i) ((b, []), w1) = Inr m0"
    and r12: "run_steps e options (b @ b) m0 = Inr (bs', w')" by blast
  from run_steps_split [OF r12] obtain m1 where
    r1: "run_steps e options b m0 = Inr m1"
    and r2: "run_steps e options b m1 = Inr (bs', w')" by blast
  obtain bs0 w0 where m0: "m0 = (bs0, w0)" by (cases m0)
  obtain bs1 w1' where m1: "m1 = (bs1, w1')" by (cases m1)
  from run_steps_ok [OF r0 [unfolded m0] init] obtain s0 where s0: "same_but w1 w0 s0"
    "batch_inv (set b) bs0 ([] @ s0)" by blast
  from run_steps_ok [OF r1 [unfolded m0 m1] s0(2)] obtain s1 where s1: "same_but w0 w1' s1"
    "batch_inv (set b) bs1 (([] @ s0) @ s1)" "set (fst bs1) \<subseteq> set (fst bs0) - set b" by blast
  from s0(2) have "set (fst bs0) \<subseteq> set b" by (cases bs0) (simp add: batch_inv_def)
  with s1(3) have "set (fst bs1) = {}" by (rule sub_diff_empty)
  then have c1: "fst bs1 = []" by simp
  from run_steps_ok [OF r2 [unfolded m1] s1(2)] obtain s2 where s2: "same_but w1' w' s2"
    "batch_inv (set b) bs' ((([] @ s0) @ s1) @ s2)" "set (fst bs') \<subseteq> set (fst bs1) - set b"
    "fst bs1 = [] \<longrightarrow> fst ` set (snd bs') \<subseteq> fst ` set (snd bs1) - set b" by blast
  from s1(2) have "fst ` set (snd bs1) \<subseteq> set b" by (cases bs1) (simp add: batch_inv_def)
  moreover from s2(4) c1 have "fst ` set (snd bs') \<subseteq> fst ` set (snd bs1) - set b" by simp
  ultimately have "fst ` set (snd bs') = {}" by (rule sub_diff_empty [rotated])
  then have "snd bs' = []" by simp
  moreover from s2(3) c1 have "fst bs' = []" by simp
  ultimately have bs': "bs' = ([], [])" by (cases bs') simp
  let ?s = "s0 @ s1 @ s2"
  from s2(2) have inv: "batch_inv (set b) ([], []) ?s" by (simp add: bs')
  then have ok: "seg_ok {i..<i + n} ?s" by (simp add: batch_inv_def B)
  from inv have "{i..<i + n} \<subseteq> set (written ?s)" by (simp add: batch_inv_def B)
  moreover from ok have "set (written ?s) \<subseteq> {i..<i + n}" by (simp add: seg_ok_def)
  ultimately have full: "set (written ?s) = {i..<i + n}" by (rule subset_antisym [rotated])
  have "same_but w w1 (batch_starts options i n)"
    by (simp add: same_but_def emit_def w1_def)
  from same_but_trans [OF this same_but_trans [OF s0(1) same_but_trans [OF s1(1) s2(1)]]]
  have "same_but w w' (batch_starts options i n @ ?s)" .
  with full ok show ?thesis by blast
qed

lemma run_batch_fail:
  assumes "run_batch e options i n w = Inl (err, w')"
  shows "\<exists>seg. same_but w w' (batch_starts options i n @ seg) \<and> seg_ok {i..<i + n} seg"
proof -
  define b where "b = [i..<i + n]"
  define w1 where "w1 = emit (batch_starts options i n) w"
  have B: "set b = {i..<i + n}" by (simp add: b_def)
  have init: "batch_inv (set b) (b, []) []"
    unfolding B unfolding b_def by (rule batch_inv_init)
  from assms have r: "run_steps e options (schedule e i @ b @ b) ((b, []), w1) = Inl (err, w')"
    by (simp add: run_batch_def Let_def b_def w1_def split: sum.splits prod.splits)
  from run_steps_fail [OF r init] obtain s where s: "same_but w1 w' s"
    "seg_ok (set b) ([] @ s)" by blast
  have "same_but w w1 (batch_starts options i n)"
    by (simp add: same_but_def emit_def w1_def)
  from same_but_trans [OF this s(1)] s(2) show ?thesis by (auto simp: B)
qed

subsection \<open>The capture loop\<close>

lemma each_after_append:
  assumes "each_after R xs" and "\<And>y. y \<in> set ys \<Longrightarrow> R y (set xs)"
    and mono: "\<And>x S S'. R x S \<Longrightarrow> S \<subseteq> S' \<Longrightarrow> R x S'"
  shows "each_after R (xs @ ys)"
  unfolding each_after_def
proof (intro allI impI)
  fix pre x post
  assume eq: "xs @ ys = pre @ x # post"
  then consider us where "xs = pre @ us" "us @ ys = x # post"
    | us where "xs @ us = pre" "ys = us @ x # post"
    by (auto simp: append_eq_append_conv2)
  then show "R x (set pre)"
  proof cases
    case 1
    show ?thesis
    proof (cases us)
      case Nil
      with 1 have "pre = xs" "x \<in> set ys" by auto
      with assms(2) show ?thesis by simp
    next
      case (Cons u us')
      with 1 have "xs = pre @ x # us'" by simp
      with assms(1) show ?thesis by (auto simp: each_after_def)
    qed
  next
    case 2
    then have "x \<in> set ys" "set xs \<subseteq> set pre" by auto
    with assms(2) mono show ?thesis by blast
  qed
qed

lemma each_after_Nil: "each_after R []"
  by (simp add: each_after_def)

lemma mono_earlier: "after_earlier_batches x S \<Longrightarrow> S \<subseteq> S' \<Longrightarrow> after_earlier_batches x S'"
  by (auto simp: after_earlier_batches_def)

lemma mono_started: "after_batch_started options x S \<Longrightarrow> S \<subseteq> S' \<Longrightarrow> after_batch_started options x S'"
  by (auto simp: after_batch_started_def)

lemma written_set: "f \<in> set (written evs) \<longleftrightarrow> (\<exists>n. Written f n \<in> set evs)"
  by (induction evs rule: written.induct) auto

lemma starts_set: "f \<in> set (starts evs) \<longleftrightarrow> (\<exists>t. CaptureStart f t \<in> set evs)"
  by (induction evs rule: starts.induct) auto

lemma seg_ok_starts: "seg_ok B seg \<Longrightarrow> starts seg = []"
  by (simp add: seg_ok_def)

lemma loop_inv_init: "loop_inv options 0 0 []"
  by (simp add: loop_inv_def each_after_Nil)

lemma div5_less: "(f::nat) div 5 < m \<longleftrightarrow> f < 5 * m"
  by (simp add: div_less_iff_less_mult mult.commute)

lemma div5_eq: "(5::nat) * m \<le> j \<and> j < 5 * m + 5 \<longleftrightarrow> j div 5 = m"
proof
  assume "5 * m \<le> j \<and> j < 5 * m + 5"
  then show "j div 5 = m" by (intro div_nat_eqI) simp_all
next
  assume "j div 5 = m"
  then have "m = j div 5" by simp
  then show "5 * m \<le> j \<and> j < 5 * m + 5"
    using dividend_less_times_div [of 5 j] by simp
qed

lemma batch_div:
  assumes "batchSize dvd i"
  shows "i \<le> j \<and> j < i + batchSize \<longleftrightarrow> j div batchSize = i div batchSize"
    and "f div batchSize < i div batchSize \<longleftrightarrow> f < i"
proof -
  from assms obtain m where m: "i = 5 * m" by (auto simp: batchSize_def elim: dvdE)
  show "i \<le> j \<and> j < i + batchSize \<longleftrightarrow> j div batchSize = i div batchSize"
    using div5_eq [of m j] by (simp add: m batchSize_def)
  show "f div batchSize < i div batchSize \<longleftrightarrow> f < i"
    using div5_less [of f m] by (simp add: m batchSize_def)
qed

lemma loop_inv_batch:
  assumes inv: "loop_inv options i i evs" and i: "int i < totalFrames options"
    and dvd: "batchSize dvd i"
    and n: "n = nat (min (int batchSize) (totalFrames options - int i))"
    and seg: "seg_ok {i..<i + n} seg"
    and full: "full \<longrightarrow> set (written seg) = {i..<i + n}"
  shows "loop_inv options (if full then i + n else i) (i + n) (evs @ batch_starts options i n @ seg)"
proof -
  let ?S = "batch_starts options i n"
  let ?evs = "evs @ ?S @ seg"
  have n5: "n \<le> batchSize" and nT: "int (i + n) \<le> totalFrames options" and n1: "0 < n"
    using i n by (auto simp: batchSize_def)
  have inbatch: "g \<in> {i..<i + n} \<longleftrightarrow> g div batchSize = i div batchSize \<and> int g < totalFrames options" for g
  proof -
    have "g div batchSize = i div batchSize \<longleftrightarrow> i \<le> g \<and> g < i + batchSize"
      using batch_div(1) [OF dvd, of g] by simp
    then show ?thesis using i n by (auto simp: batchSize_def)
  qed
  from inv have st: "starts evs = [0..<i]" and dw: "distinct (written evs)"
    and wsub: "set (written evs) \<subseteq> {..<i}" and wsup: "{..<i} \<subseteq> set (written evs)"
    and names': "\<forall>f n. Written f n \<in> set evs \<longrightarrow> n = frameName f"
    and times': "\<forall>f t. CaptureStart f t \<in> set evs \<longrightarrow>
          t = time (render_frame options f) \<and> int f < totalFrames options"
    and kinds': "\<forall>ev \<in> set evs. (\<exists>f t. ev = CaptureStart f t) \<or> task_of ev \<noteq> None"
    and bar: "each_after after_earlier_batches evs"
    and con: "each_after (after_batch_started options) evs"
    unfolding loop_inv_def by simp_all
  from names' have names: "n = frameName f" if "Written f n \<in> set evs" for f n
    using that by blast
  from times' have times: "t = time (render_frame options f) \<and> int f < totalFrames options"
    if "CaptureStart f t \<in> set evs" for f t
    using that by blast
  from kinds' have kinds: "(\<exists>f t. ev = CaptureStart f t) \<or> task_of ev \<noteq> None"
    if "ev \<in> set evs" for ev
    using that by blast
  from seg have sd: "distinct (written seg)" and ssub: "set (written seg) \<subseteq> {i..<i + n}"
    and sst: "starts seg = []"
    and sev': "\<forall>ev \<in> set seg.
        \<exists>f \<in> {i..<i + n}. ev = Captured f \<or> ev = Written f (frameName f) \<or> ev = TaskFailed f"
    unfolding seg_ok_def by simp_all
  from sev' have sev: "\<exists>f \<in> {i..<i + n}. ev = Captured f \<or> ev = Written f (frameName f) \<or> ev = TaskFailed f"
    if "ev \<in> set seg" for ev
    using that by blast
  have 1: "starts ?evs = [0..<i + n]"
    using st sst upt_add_eq_append [of 0 i n] by simp
  have 2: "int (i + n) \<le> max 0 (totalFrames options)" using nT by simp
  have disj: "set (written evs) \<inter> set (written seg) = {}"
  proof -
    have "{..<i} \<inter> {i..<i + n} = {}" by auto
    with wsub ssub show ?thesis by blast
  qed
  have 3: "distinct (written ?evs)"
    using dw sd disj by simp
  have 4: "set (written ?evs) \<subseteq> {..<i + n}"
    using wsub ssub by auto
  have 5: "{..<(if full then i + n else i)} \<subseteq> set (written ?evs)"
  proof (cases full)
    case True
    with full have "set (written seg) = {i..<i + n}" by simp
    with wsup True show ?thesis by auto
  next
    case False
    with wsup show ?thesis by auto
  qed
  have 6: "\<forall>f n. Written f n \<in> set ?evs \<longrightarrow> n = frameName f"
  proof (intro allI impI)
    fix f n' assume "Written f n' \<in> set ?evs"
    then consider "Written f n' \<in> set evs" | "Written f n' \<in> set seg" by auto
    then show "n' = frameName f"
    proof cases
      case 1
      then show ?thesis by (rule names)
    next
      case 2
      from sev [OF this] show ?thesis by auto
    qed
  qed
  have 7: "\<forall>f t. CaptureStart f t \<in> set ?evs \<longrightarrow>
          t = time (render_frame options f) \<and> int f < totalFrames options"
  proof (intro allI impI)
    fix f t assume "CaptureStart f t \<in> set ?evs"
    then consider "CaptureStart f t \<in> set evs" | "CaptureStart f t \<in> set ?S"
      | "CaptureStart f t \<in> set seg" by auto
    then show "t = time (render_frame options f) \<and> int f < totalFrames options"
    proof cases
      case 1
      then show ?thesis by (rule times)
    next
      case 2
      then have "f \<in> {i..<i + n}" "t = time (render_frame options f)" by auto
      then show ?thesis using inbatch [of f] by simp
    next
      case 3
      from sev [OF this] show ?thesis by auto
    qed
  qed
  have 8: "\<forall>ev \<in> set ?evs. (\<exists>f t. ev = CaptureStart f t) \<or> task_of ev \<noteq> None"
  proof
    fix ev assume "ev \<in> set ?evs"
    then consider "ev \<in> set evs" | "ev \<in> set ?S" | "ev \<in> set seg" by auto
    then show "(\<exists>f t. ev = CaptureStart f t) \<or> task_of ev \<noteq> None"
    proof cases
      case 1
      then show ?thesis by (rule kinds)
    next
      case 2
      then show ?thesis by auto
    next
      case 3
      from sev [OF this] show ?thesis by auto
    qed
  qed
  have 9: "each_after after_earlier_batches ?evs"
  proof -
    have a: "each_after after_earlier_batches (evs @ ?S)"
    proof (rule each_after_append [OF bar _ mono_earlier])
      fix y assume "y \<in> set ?S"
      then obtain j where j: "j \<in> {i..<i + n}" "y = CaptureStart j (time (render_frame options j))"
        by auto
      have "Written f (frameName f) \<in> set evs" if "f div batchSize < j div batchSize" for f
      proof -
        from j(1) inbatch [of j] that have "f div batchSize < i div batchSize" by simp
        then have "f < i" using batch_div(2) [OF dvd] by simp
        with wsup have "f \<in> set (written evs)" by auto
        then obtain n' where "Written f n' \<in> set evs" by (auto simp: written_set)
        with names [OF this] show ?thesis by simp
      qed
      then show "after_earlier_batches y (set evs)"
        using j(2) by (simp add: after_earlier_batches_def)
    qed
    have "each_after after_earlier_batches ((evs @ ?S) @ seg)"
    proof (rule each_after_append [OF a _ mono_earlier])
      fix y assume "y \<in> set seg"
      from sev [OF this] show "after_earlier_batches y (set (evs @ ?S))"
        by (auto simp: after_earlier_batches_def)
    qed
    then show ?thesis by simp
  qed
  have 10: "each_after (after_batch_started options) ?evs"
  proof -
    have a: "each_after (after_batch_started options) (evs @ ?S)"
    proof (rule each_after_append [OF con _ mono_started])
      fix y assume "y \<in> set ?S"
      then show "after_batch_started options y (set evs)"
        by (auto simp: after_batch_started_def)
    qed
    have "each_after (after_batch_started options) ((evs @ ?S) @ seg)"
    proof (rule each_after_append [OF a _ mono_started])
      fix y assume "y \<in> set seg"
      from sev [OF this] obtain f where f: "f \<in> {i..<i + n}" "task_of y = Some f" by auto
      have "CaptureStart g (time (render_frame options g)) \<in> set (evs @ ?S)"
        if "g div batchSize = f div batchSize" "int g < totalFrames options" for g
      proof -
        from f(1) inbatch [of f] that have "g \<in> {i..<i + n}" using inbatch [of g] by simp
        then show ?thesis by auto
      qed
      with f(2) show "after_batch_started options y (set (evs @ ?S))"
        by (simp add: after_batch_started_def)
    qed
    then show ?thesis by simp
  qed
  show ?thesis
    unfolding loop_inv_def by (intro conjI) (fact 1 2 3 4 5 6 7 8 9 10)+
qed

lemma capture_loop_inv:
  assumes "capture_loop e options i w = R"
    and "same_but w0 w evs" and "batchSize dvd i"
    and "loop_inv options (min i (nat (totalFrames options))) (min i (nat (totalFrames options))) evs"
  shows "case R of
           Inr w' \<Rightarrow> \<exists>evs'. same_but w0 w' evs'
             \<and> loop_inv options (nat (totalFrames options)) (nat (totalFrames options)) evs'
         | Inl (err, w') \<Rightarrow> \<exists>evs' j k. same_but w0 w' evs' \<and> loop_inv options j k evs'"
  using assms
proof (induction e options i w arbitrary: evs rule: capture_loop.induct)
  case (1 e options i w)
  let ?T = "nat (totalFrames options)"
  let ?n = "nat (min (int batchSize) (totalFrames options - int i))"
  show ?case
  proof (cases "int i < totalFrames options")
    case False
    with "1.prems"(1) have R: "R = Inr w" by (simp add: capture_loop.simps)
    from False have "min i ?T = ?T" by simp
    with "1.prems"(2,4) R show ?thesis by auto
  next
    case True
    then have mi: "min i ?T = i" by simp
    with "1.prems"(4) have inv: "loop_inv options i i evs" by simp
    show ?thesis
    proof (cases "run_batch e options i ?n w")
      case (Inl f)
      obtain err w1 where f: "f = (err, w1)" by (cases f)
      with Inl True "1.prems"(1) have R: "R = Inl (err, w1)" by (simp add: capture_loop.simps)
      from run_batch_fail [OF Inl [unfolded f]] obtain seg where
        seg: "same_but w w1 (batch_starts options i ?n @ seg)" "seg_ok {i..<i + ?n} seg" by blast
      have "loop_inv options (if False then i + ?n else i) (i + ?n)
              (evs @ batch_starts options i ?n @ seg)"
        by (rule loop_inv_batch [OF inv True "1.prems"(3) refl seg(2)]) simp
      moreover have "same_but w0 w1 (evs @ batch_starts options i ?n @ seg)"
        using "1.prems"(2) seg(1) by (rule same_but_trans)
      ultimately show ?thesis using R by auto
    next
      case (Inr w1)
      with True "1.prems"(1) have R: "capture_loop e options (i + batchSize) w1 = R"
        by (simp add: capture_loop.simps)
      from run_batch_ok [OF Inr] obtain seg where
        seg: "same_but w w1 (batch_starts options i ?n @ seg)" "seg_ok {i..<i + ?n} seg"
          "set (written seg) = {i..<i + ?n}" by blast
      have "loop_inv options (if True then i + ?n else i) (i + ?n)
              (evs @ batch_starts options i ?n @ seg)"
        by (rule loop_inv_batch [OF inv True "1.prems"(3) refl seg(2)]) (simp add: seg(3))
      moreover have "i + ?n = min (i + batchSize) ?T" using True by (auto simp: batchSize_def)
      ultimately have inv': "loop_inv options (min (i + batchSize) ?T) (min (i + batchSize) ?T)
              (evs @ batch_starts options i ?n @ seg)" by simp
      have sb: "same_but w0 w1 (evs @ batch_starts options i ?n @ seg)"
        using "1.prems"(2) seg(1) by (rule same_but_trans)
      have "batchSize dvd i + batchSize" using "1.prems"(3) by simp
      from "1.IH" [OF True Inr R sb this inv'] show ?thesis .
    qed
  qed
qed

subsection \<open>The whole call\<close>

lemma each_after_prepend:
  assumes "each_after R ys" and "each_after R xs"
    and mono: "\<And>x S S'. R x S \<Longrightarrow> S \<subseteq> S' \<Longrightarrow> R x S'"
  shows "each_after R (xs @ ys)"
  unfolding each_after_def
proof (intro allI impI)
  fix pre x post
  assume eq: "xs @ ys = pre @ x # post"
  then consider us where "xs = pre @ us" "us @ ys = x # post"
    | us where "xs @ us = pre" "ys = us @ x # post"
    by (auto simp: append_eq_append_conv2)
  then show "R x (set pre)"
  proof cases
    case 1
    show ?thesis
    proof (cases us)
      case Nil
      with 1 have "ys = [] @ x # post" "pre = xs" by auto
      with assms(1) have "R x (set [])" unfolding each_after_def by blast
      then show ?thesis by (rule mono) simp
    next
      case (Cons u us')
      with 1 have "xs = pre @ x # us'" by simp
      with assms(2) show ?thesis by (auto simp: each_after_def)
    qed
  next
    case 2
    with assms(1) have "R x (set us)" by (auto simp: each_after_def)
    then show ?thesis by (rule mono) (use 2 in auto)
  qed
qed

lemma outer_starts: "\<forall>x \<in> set xs. outer x \<Longrightarrow> starts xs = []"
  by (induction xs rule: starts.induct) (auto simp: outer_def)

lemma outer_written: "\<forall>x \<in> set xs. outer x \<Longrightarrow> written xs = []"
  by (induction xs rule: written.induct) (auto simp: outer_def)

lemma outer_each_after_earlier: "\<forall>x \<in> set xs. outer x \<Longrightarrow> each_after after_earlier_batches xs"
  by (auto simp: each_after_def after_earlier_batches_def outer_def)

lemma outer_each_after_started:
  "\<forall>x \<in> set xs. outer x \<Longrightarrow> each_after (after_batch_started options) xs"
  by (auto simp: each_after_def after_batch_started_def outer_def)

lemma outer_not_start: "outer x \<Longrightarrow> x \<noteq> CaptureStart f t"
  by (auto simp: outer_def)

lemma outer_not_written: "outer x \<Longrightarrow> x \<noteq> Written f n"
  by (auto simp: outer_def)

lemma try_block_events:
  assumes "try_block e options w = (result, w')"
  shows "\<exists>evs post j k. trace w' = trace w @ evs @ post \<and> loop_inv options j k evs
      \<and> (\<forall>x \<in> set post. outer x) \<and> clone_attached w' = clone_attached w
      \<and> (isl result \<or> Exec (exec_args options) \<in> set post)
      \<and> ((\<exists>a. Exec a \<in> set post)
            \<longrightarrow> j = nat (totalFrames options) \<and> k = nat (totalFrames options))"
proof (cases "capture_loop e options 0 w")
  case (Inl f)
  obtain err w1 where f: "f = (err, w1)" by (cases f)
  have d: "batchSize dvd 0" by simp
  have li: "loop_inv options (min 0 (nat (totalFrames options))) (min 0 (nat (totalFrames options))) []"
    by (simp add: loop_inv_init)
  from capture_loop_inv [OF Inl same_but_refl d li] f obtain evs j k
    where ev: "same_but w w1 evs" "loop_inv options j k evs"
    by auto
  from assms Inl f have "result = Inl err" "w' = w1" by (simp_all add: try_block_def)
  with ev show ?thesis
    by (intro exI [of _ evs] exI [of _ "[]"] exI [of _ j] exI [of _ k]) (simp add: same_but_def)
next
  case (Inr w1)
  let ?T = "nat (totalFrames options)"
  have d: "batchSize dvd 0" by simp
  have li: "loop_inv options (min 0 ?T) (min 0 ?T) []"
    by (simp add: loop_inv_init)
  from capture_loop_inv [OF Inr same_but_refl d li] obtain evs
    where ev: "same_but w w1 evs" "loop_inv options ?T ?T evs"
    by auto
  from ev(1) have t1: "trace w1 = trace w @ evs" and c1: "clone_attached w1 = clone_attached w"
    by (simp_all add: same_but_def)
  from assms Inr obtain post where "trace w' = trace w1 @ post" "clone_attached w' = clone_attached w1"
    "\<forall>x \<in> set post. outer x" "isl result \<or> Exec (exec_args options) \<in> set post"
    by (auto simp: try_block_def Let_def emit_def outer_def split: option.splits sum.splits)
  with t1 c1 ev(2) show ?thesis
    by (intro exI [of _ evs] exI [of _ post] exI [of _ ?T] exI [of _ ?T]) simp
qed

lemma call_inv_lift:
  assumes inv: "loop_inv options j k evs" and out: "\<forall>x \<in> set pre \<union> set post. outer x"
    and ex: "(\<exists>a. Exec a \<in> set (pre @ post)) \<longrightarrow>
               j = nat (totalFrames options) \<and> k = nat (totalFrames options)"
  shows "call_inv options j k (pre @ evs @ post)"
proof -
  let ?all = "pre @ evs @ post"
  from out have opre: "\<forall>x \<in> set pre. outer x" and opost: "\<forall>x \<in> set post. outer x" by auto
  from inv have st: "starts evs = [0..<k]" and kT: "int k \<le> max 0 (totalFrames options)"
    and dw: "distinct (written evs)"
    and wsub: "set (written evs) \<subseteq> {..<k}" and wsup: "{..<j} \<subseteq> set (written evs)"
    and names: "\<forall>f n. Written f n \<in> set evs \<longrightarrow> n = frameName f"
    and times: "\<forall>f t. CaptureStart f t \<in> set evs \<longrightarrow>
          t = time (render_frame options f) \<and> int f < totalFrames options"
    and kinds: "\<forall>ev \<in> set evs. (\<exists>f t. ev = CaptureStart f t) \<or> task_of ev \<noteq> None"
    and bar: "each_after after_earlier_batches evs"
    and con: "each_after (after_batch_started options) evs"
    unfolding loop_inv_def by simp_all
  have s: "starts ?all = starts evs" and w: "written ?all = written evs"
    using outer_starts [OF opre] outer_starts [OF opost] outer_written [OF opre]
      outer_written [OF opost] by simp_all
  have 1: "starts ?all = [0..<k]" using s st by simp
  have 3: "distinct (written ?all)" using w dw by simp
  have 4: "set (written ?all) \<subseteq> {..<k}" using w wsub by simp
  have 5: "{..<j} \<subseteq> set (written ?all)" using w wsup by simp
  have nw: "Written f n \<notin> set pre \<union> set post" for f n
  proof
    assume "Written f n \<in> set pre \<union> set post"
    with out have "outer (Written f n)" by blast
    then show False by (simp add: outer_def)
  qed
  have ns: "CaptureStart f t \<notin> set pre \<union> set post" for f t
  proof
    assume "CaptureStart f t \<in> set pre \<union> set post"
    with out have "outer (CaptureStart f t)" by blast
    then show False by (simp add: outer_def)
  qed
  have 6: "\<forall>f n. Written f n \<in> set ?all \<longrightarrow> n = frameName f"
    using names nw by auto
  have 7: "\<forall>f t. CaptureStart f t \<in> set ?all \<longrightarrow>
          t = time (render_frame options f) \<and> int f < totalFrames options"
    using times ns by auto
  have 8: "each_after after_earlier_batches ?all"
  proof (rule each_after_prepend [OF _ outer_each_after_earlier [OF opre] mono_earlier])
    show "each_after after_earlier_batches (evs @ post)"
    proof (rule each_after_append [OF bar _ mono_earlier])
      fix y assume "y \<in> set post"
      with opost show "after_earlier_batches y (set evs)"
        by (auto simp: after_earlier_batches_def outer_def)
    qed
  qed
  have 9: "each_after (after_batch_started options) ?all"
  proof (rule each_after_prepend [OF _ outer_each_after_started [OF opre] mono_started])
    show "each_after (after_batch_started options) (evs @ post)"
    proof (rule each_after_append [OF con _ mono_started])
      fix y assume "y \<in> set post"
      with opost show "after_batch_started options y (set evs)"
        by (auto simp: after_batch_started_def outer_def)
    qed
  qed
  have 10: "(\<exists>a. Exec a \<in> set ?all) \<longrightarrow>
              j = nat (totalFrames options) \<and> k = nat (totalFrames options)"
  proof
    assume "\<exists>a. Exec a \<in> set ?all"
    then obtain a where a: "Exec a \<in> set ?all" by blast
    have "Exec a \<notin> set evs"
    proof
      assume "Exec a \<in> set evs"
      with kinds have "(\<exists>f t. Exec a = CaptureStart f t) \<or> task_of (Exec a) \<noteq> None" by blast
      then show False by simp
    qed
    with a have "Exec a \<in> set (pre @ post)" by auto
    with ex show "j = nat (totalFrames options) \<and> k = nat (totalFrames options)" by blast
  qed
  show ?thesis
    unfolding call_inv_def by (intro conjI) (fact 1 kT 3 4 5 6 7 8 9 10)+
qed

lemma exportToVideo_call_inv:
  assumes "exportToVideo e options w = (result, w')"
  shows "\<exists>evs j k. trace w' = trace w @ evs \<and> call_inv options j k evs
           \<and> (isl result \<or> Exec (exec_args options) \<in> set evs)"
proof -
  have none: "\<exists>evs j k. trace w = trace w @ evs \<and> call_inv options j k evs"
  proof -
    have "call_inv options 0 0 ([] @ [] @ [])"
      by (rule call_inv_lift [OF loop_inv_init]) simp_all
    then show ?thesis by (intro exI [of _ "[]"] exI [of _ 0]) simp
  qed
  show ?thesis
  proof (cases "awaited_ffmpeg e")
    case (Inl err)
    with assms have "w' = w" "isl result" by (auto simp: exportToVideo_def)
    with none show ?thesis by simp
  next
    case (Inr handle)
    show ?thesis
    proof (cases "handle \<and> createDir e ''frames'' = None")
      case False
      with assms Inr have "w' = w" "isl result"
        by (auto simp: exportToVideo_def split: option.splits if_splits)
      with none show ?thesis by simp
    next
      case True
      define w2 where "w2 = emit [AppendClone]
          ((emit [CreateDir ''frames''] (w\<lparr>dirs := dirs w @ [''frames'']\<rparr>))\<lparr>clone_attached := True\<rparr>)"
      obtain r w3 where tb: "try_block e options w2 = (r, w3)" by (cases "try_block e options w2")
      from try_block_events [OF tb] obtain evs post j k where
        t3: "trace w3 = trace w2 @ evs @ post" and inv: "loop_inv options j k evs"
        and out: "\<forall>x \<in> set post. outer x" and cl: "clone_attached w3 = clone_attached w2"
        and ex: "isl r \<or> Exec (exec_args options) \<in> set post"
        and ex': "(\<exists>a. Exec a \<in> set post)
            \<longrightarrow> j = nat (totalFrames options) \<and> k = nat (totalFrames options)" by blast
      have t2: "trace w2 = trace w @ [CreateDir ''frames'', AppendClone]"
        and c2: "clone_attached w2" by (simp_all add: w2_def emit_def)
      from assms Inr True tb cl c2 have res: "result = r"
        and w': "w' = emit [RemoveClone] (w3\<lparr>clone_attached := False\<rparr>)"
        by (simp_all add: exportToVideo_def Let_def w2_def)
      let ?pre = "[CreateDir ''frames'', AppendClone]"
      let ?post = "post @ [RemoveClone]"
      have tr: "trace w' = trace w @ ?pre @ evs @ ?post"
        using w' t3 t2 by (simp add: emit_def)
      have o: "\<forall>x \<in> set ?pre \<union> set ?post. outer x"
        using out by (auto simp: outer_def)
      have "(\<exists>a. Exec a \<in> set (?pre @ ?post)) \<longrightarrow>
               j = nat (totalFrames options) \<and> k = nat (totalFrames options)"
        using ex' by auto
      from call_inv_lift [OF inv o this] have "call_inv options j k (?pre @ evs @ ?post)" .
      moreover have "isl result \<or> Exec (exec_args options) \<in> set (?pre @ evs @ ?post)"
        using ex res by auto
      ultimately show ?thesis using tr by blast
    qed
  qed
qed

subsection \<open>What is captured and what is stored\<close>

lemma kept_refl: "kept e options w w"
  by (simp add: kept_def)

lemma kept_trans:
  assumes "kept e options w w1" and "kept e options w1 w2"
  shows "kept e options w w2"
proof -
  from assms(1) obtain s1 where s1: "trace w1 = trace w @ s1"
    "\<And>f. f \<in> set (written s1) \<Longrightarrow>
        \<exists>d. captureFrame e (render_frame options f) = Inr d \<and> writeFile e (frameName f) d = None"
    unfolding kept_def by blast
  from assms(2) obtain s2 where s2: "trace w2 = trace w1 @ s2"
    "\<And>f. f \<in> set (written s2) \<Longrightarrow>
        \<exists>d. captureFrame e (render_frame options f) = Inr d \<and> writeFile e (frameName f) d = None"
    unfolding kept_def by blast
  have "trace w2 = trace w @ (s1 @ s2)" using s1(1) s2(1) by simp
  moreover have "\<forall>f. f \<in> set (written (s1 @ s2)) \<longrightarrow>
        (\<exists>d. captureFrame e (render_frame options f) = Inr d \<and> writeFile e (frameName f) d = None)"
    using s1(2) s2(2) by auto
  ultimately show ?thesis unfolding kept_def by blast
qed

lemma kept_emit: "written evs = [] \<Longrightarrow> kept e options w (emit evs w)"
  by (simp add: kept_def emit_def)

lemma task_step_kept:
  assumes "captured_all e options wr"
  shows "case task_step e options t ((cap, wr), w) of
           Inl (err, w') \<Rightarrow> kept e options w w'
         | Inr (bs', w') \<Rightarrow> kept e options w w' \<and> captured_all e options (snd bs')"
proof (cases "t \<in> set cap")
  case True
  show ?thesis
  proof (cases "captureFrame e (render_frame options t)")
    case (Inl err)
    with True show ?thesis by (simp add: task_step_def kept_emit)
  next
    case (Inr d)
    with True assms show ?thesis by (auto simp: task_step_def kept_emit captured_all_def)
  qed
next
  case False
  show ?thesis
  proof (cases "map_of wr t")
    case None
    with False assms show ?thesis by (simp add: task_step_def kept_refl)
  next
    case (Some d)
    then have "(t, d) \<in> set wr" by (rule map_of_SomeD)
    with assms have cap: "captureFrame e (render_frame options t) = Inr d"
      by (simp add: captured_all_def)
    show ?thesis
    proof (cases "writeFile e (frameName t) d")
      case (Some err)
      with False \<open>map_of wr t = Some d\<close> show ?thesis by (simp add: task_step_def kept_emit)
    next
      case None
      have "kept e options w
              (emit [Written t (frameName t)] (w\<lparr>files := files w @ [frameName t]\<rparr>))"
        unfolding kept_def using cap None
        by (intro exI [of _ "[Written t (frameName t)]"]) (simp add: emit_def)
      moreover have "captured_all e options (filter (\<lambda>kd. fst kd \<noteq> t) wr)"
        using assms by (simp add: captured_all_def)
      ultimately show ?thesis
        using False \<open>map_of wr t = Some d\<close> None by (simp add: task_step_def)
    qed
  qed
qed

lemma run_steps_kept:
  assumes "captured_all e options (snd bs)"
  shows "case run_steps e options ts (bs, w) of
           Inl (err, w') \<Rightarrow> kept e options w w'
         | Inr (bs', w') \<Rightarrow> kept e options w w' \<and> captured_all e options (snd bs')"
  using assms
proof (induction ts arbitrary: bs w)
  case Nil
  then show ?case by (simp add: kept_refl)
next
  case (Cons t ts)
  obtain cap wr where bs: "bs = (cap, wr)" by (cases bs)
  with Cons.prems have wr: "captured_all e options wr" by simp
  note step = task_step_kept [OF wr, where t = t and cap = cap and w = w]
  show ?case
  proof (cases "task_step e options t ((cap, wr), w)")
    case (Inl f)
    with step bs show ?thesis by (auto split: prod.splits)
  next
    case (Inr r)
    obtain bs1 w1 where r: "r = (bs1, w1)" by (cases r)
    with Inr step have k1: "kept e options w w1" and c1: "captured_all e options (snd bs1)"
      by simp_all
    note rest = Cons.IH [OF c1, where w = w1]
    show ?thesis
    proof (cases "run_steps e options ts (bs1, w1)")
      case (Inl f)
      obtain err w' where f: "f = (err, w')" by (cases f)
      with Inl rest have "kept e options w1 w'" by simp
      with k1 have "kept e options w w'" by (rule kept_trans)
      with Inl f Inr r bs show ?thesis by simp
    next
      case (Inr r2)
      obtain bs' w' where r2: "r2 = (bs', w')" by (cases r2)
      with Inr rest have "kept e options w1 w'" and c: "captured_all e options (snd bs')"
        by simp_all
      with k1 have "kept e options w w'" by (blast intro: kept_trans)
      with c Inr r2 \<open>task_step e options t ((cap, wr), w) = Inr r\<close> r bs show ?thesis by simp
    qed
  qed
qed

lemma run_batch_kept:
  "case run_batch e options i n w of
     Inl (err, w') \<Rightarrow> kept e options w w'
   | Inr w' \<Rightarrow> kept e options w w'"
proof -
  define w1 where "w1 = emit (batch_starts options i n) w"
  have k1: "kept e options w w1" unfolding w1_def by (rule kept_emit) simp
  have "captured_all e options (snd ([i..<i + n], []))" by (simp add: captured_all_def)
  note steps = run_steps_kept [OF this, where ts = "schedule e i @ [i..<i + n] @ [i..<i + n]" and w = w1]
  show ?thesis
  proof (cases "run_steps e options (schedule e i @ [i..<i + n] @ [i..<i + n]) (([i..<i + n], []), w1)")
    case (Inl f)
    obtain err w' where f: "f = (err, w')" by (cases f)
    with Inl steps have "kept e options w1 w'" by simp
    with k1 have "kept e options w w'" by (rule kept_trans)
    with Inl f show ?thesis by (simp add: run_batch_def Let_def w1_def)
  next
    case (Inr r)
    obtain bs' w' where r: "r = (bs', w')" by (cases r)
    with Inr steps have "kept e options w1 w'" by simp
    with k1 have "kept e options w w'" by (rule kept_trans)
    with Inr r show ?thesis by (simp add: run_batch_def Let_def w1_def)
  qed
qed

lemma capture_loop_kept:
  "case capture_loop e options i w of
     Inl (err, w') \<Rightarrow> kept e options w w'
   | Inr w' \<Rightarrow> kept e options w w'"
proof (induction e options i w rule: capture_loop.induct)
  case (1 e options i w)
  let ?n = "nat (min (int batchSize) (totalFrames options - int i))"
  show ?case
  proof (cases "int i < totalFrames options")
    case False
    then show ?thesis by (simp add: capture_loop.simps [of e options i w] kept_refl)
  next
    case True
    note batch = run_batch_kept [where e = e and options = options and i = i and n = ?n and w = w]
    show ?thesis
    proof (cases "run_batch e options i ?n w")
      case (Inl f)
      with batch True show ?thesis
        by (simp add: capture_loop.simps [of e options i w])
    next
      case (Inr w1)
      with batch have k1: "kept e options w w1" by simp
      note rest = "1.IH" [OF True Inr]
      show ?thesis
      proof (cases "capture_loop e options (i + batchSize) w1")
        case (Inl f)
        obtain err w' where f: "f = (err, w')" by (cases f)
        with Inl rest have "kept e options w1 w'" by simp
        with k1 have "kept e options w w'" by (rule kept_trans)
        with Inl f Inr True show ?thesis by (simp add: capture_loop.simps [of e options i w])
      next
        case r: (Inr w')
        with rest have "kept e options w1 w'" by simp
        with k1 have "kept e options w w'" by (rule kept_trans)
        with r Inr True show ?thesis by (simp add: capture_loop.simps [of e options i w])
      qed
    qed
  qed
qed

lemma try_block_kept:
  assumes "try_block e options w = (result, w')"
  shows "kept e options w w'"
proof (cases "capture_loop e options 0 w")
  case (Inl f)
  obtain err w1 where f: "f = (err, w1)" by (cases f)
  with Inl capture_loop_kept [where e = e and options = options and i = 0 and w = w] have "kept e options w w1" by simp
  moreover from assms Inl f have "w' = w1" by (simp add: try_block_def)
  ultimately show ?thesis by simp
next
  case (Inr w1)
  with capture_loop_kept [where e = e and options = options and i = 0 and w = w] have k1: "kept e options w w1" by simp
  from assms Inr have "\<exists>post. trace w' = trace w1 @ post \<and> written post = []"
    by (auto simp: try_block_def Let_def emit_def split: option.splits sum.splits)
  then have "kept e options w1 w'" by (auto simp: kept_def)
  with k1 show ?thesis by (rule kept_trans)
qed

lemma exportToVideo_kept:
  assumes "exportToVideo e options w = (result, w')"
  shows "kept e options w w'"
proof (cases "awaited_ffmpeg e = Inr True \<and> createDir e ''frames'' = None")
  case False
  with assms have "w' = w"
    by (auto simp: exportToVideo_def split: sum.splits option.splits if_splits)
  then show ?thesis by (simp add: kept_refl)
next
  case True
  define w2 where "w2 = emit [AppendClone]
      ((emit [CreateDir ''frames''] (w\<lparr>dirs := dirs w @ [''frames'']\<rparr>))\<lparr>clone_attached := True\<rparr>)"
  obtain r w3 where tb: "try_block e options w2 = (r, w3)" by (cases "try_block e options w2")
  have "kept e options w w2" by (simp add: kept_def w2_def emit_def)
  moreover have "kept e options w2 w3" using tb by (rule try_block_kept)
  moreover have "kept e options w3 w'"
    using assms True tb
    by (cases "clone_attached w3") (auto simp: exportToVideo_def Let_def w2_def kept_def emit_def)
  ultimately show ?thesis by (blast intro: kept_trans)
qed

text \<open>
  The files of the frames written are in the storage, in the order of the writes, as long
  as the directory has not been removed.
\<close>

lemma try_block_files:
  assumes "try_block e options w = (result, w')"
  shows "\<exists>evs. trace w' = trace w @ evs
           \<and> (DeleteDir ''frames'' \<notin> set evs
                \<longrightarrow> prefix (files w @ map frameName (written evs)) (files w'))"
proof -
  have d: "batchSize dvd 0" by simp
  have li: "loop_inv options (min 0 (nat (totalFrames options))) (min 0 (nat (totalFrames options))) []"
    by (simp add: loop_inv_init)
  show ?thesis
  proof (cases "capture_loop e options 0 w")
    case (Inl f)
    obtain err w1 where f: "f = (err, w1)" by (cases f)
    from capture_loop_inv [OF Inl same_but_refl d li] f obtain evs where "same_but w w1 evs"
      by auto
    moreover from assms Inl f have "w' = w1" by (simp add: try_block_def)
    ultimately show ?thesis by (intro exI [of _ evs]) (simp add: same_but_def)
  next
    case (Inr w1)
    from capture_loop_inv [OF Inr same_but_refl d li] obtain evs where "same_but w w1 evs"
      by auto
    then have t1: "trace w1 = trace w @ evs" and f1: "files w1 = files w @ map frameName (written evs)"
      by (simp_all add: same_but_def)
    from assms Inr have "\<exists>post. trace w' = trace w1 @ post \<and> written post = []
        \<and> (DeleteDir ''frames'' \<notin> set post \<longrightarrow> prefix (files w1) (files w'))"
      by (auto simp: try_block_def Let_def emit_def split: option.splits sum.splits)
    then obtain post where post: "trace w' = trace w1 @ post" "written post = []"
      "DeleteDir ''frames'' \<notin> set post \<longrightarrow> prefix (files w1) (files w')" by blast
    show ?thesis
      using t1 f1 post by (intro exI [of _ "evs @ post"]) simp
  qed
qed

lemma exportToVideo_files:
  assumes "exportToVideo e options w = (result, w')"
  shows "\<exists>evs. trace w' = trace w @ evs
           \<and> (DeleteDir ''frames'' \<notin> set evs
                \<longrightarrow> prefix (files w @ map frameName (written evs)) (files w'))"
proof (cases "awaited_ffmpeg e = Inr True \<and> createDir e ''frames'' = None")
  case False
  with assms have "w' = w"
    by (auto simp: exportToVideo_def split: sum.splits option.splits if_splits)
  then show ?thesis by (intro exI [of _ "[]"]) simp
next
  case True
  define w2 where "w2 = emit [AppendClone]
      ((emit [CreateDir ''frames''] (w\<lparr>dirs := dirs w @ [''frames'']\<rparr>))\<lparr>clone_attached := True\<rparr>)"
  obtain r w3 where tb: "try_block e options w2 = (r, w3)" by (cases "try_block e options w2")
  from try_block_files [OF tb] obtain evs where evs: "trace w3 = trace w2 @ evs"
    "DeleteDir ''frames'' \<notin> set evs \<longrightarrow> prefix (files w2 @ map frameName (written evs)) (files w3)"
    by blast
  have w2: "trace w2 = trace w @ [CreateDir ''frames'', AppendClone]" "files w2 = files w"
    by (simp_all add: w2_def emit_def)
  from assms True tb have "\<exists>post. trace w' = trace w3 @ post \<and> files w' = files w3
      \<and> written post = [] \<and> DeleteDir ''frames'' \<notin> set post"
    by (cases "clone_attached w3") (auto simp: exportToVideo_def Let_def w2_def emit_def)
  then obtain post where post: "trace w' = trace w3 @ post" "files w' = files w3"
    "written post = []" "DeleteDir ''frames'' \<notin> set post" by blast
  show ?thesis
    using evs w2 post
    by (intro exI [of _ "[CreateDir ''frames'', AppendClone] @ evs @ post"]) simp
qed

subsection \<open>Frames, batches and times of a call\<close>

lemma upt_prefix: "xs @ ys = [0..<k] \<Longrightarrow> xs = [0..<length xs]"
proof -
  assume eq: "xs @ ys = [0..<k]"
  then have "length xs + length ys = k" by (metis length_append length_upt diff_zero)
  then have le: "0 + length xs \<le> k" by simp
  have "xs = take (length xs) (xs @ ys)" by simp
  also have "\<dots> = take (length xs) [0..<k]" by (simp only: eq)
  also have "\<dots> = [0..<0 + length xs]" using le by (rule take_upt)
  finally show ?thesis by simp
qed

lemma in_flight:
  assumes inv: "call_inv options j k evs" and split: "evs = pre @ post"
  shows "card (set (starts pre) - set (written pre)) \<le> batchSize"
proof -
  from inv have st: "starts evs = [0..<k]" and bar: "each_after after_earlier_batches evs"
    unfolding call_inv_def by simp_all
  from st split have "starts pre @ starts post = [0..<k]" by simp
  from upt_prefix [OF this] obtain k' where sp: "starts pre = [0..<k']" by blast
  show ?thesis
  proof (cases k')
    case 0
    with sp show ?thesis by simp
  next
    case (Suc m)
    with sp have "m \<in> set (starts pre)" by simp
    then obtain t where "CaptureStart m t \<in> set pre" by (auto simp: starts_set)
    then obtain p1 p2 where p: "pre = p1 @ CaptureStart m t # p2" by (auto dest: split_list)
    with split have "evs = p1 @ CaptureStart m t # (p2 @ post)" by simp
    with bar have "after_earlier_batches (CaptureStart m t) (set p1)"
      unfolding each_after_def by blast
    then have early: "Written f (frameName f) \<in> set p1" if "f div batchSize < m div batchSize" for f
      using that by (simp add: after_earlier_batches_def)
    have "set (starts pre) - set (written pre) \<subseteq> {5 * (m div 5)..<5 * (m div 5) + 5}"
    proof
      fix f assume f: "f \<in> set (starts pre) - set (written pre)"
      then have "f \<in> set [0..<k']" using sp by simp
      with Suc have fm: "f \<le> m" by auto
      have "\<not> f div batchSize < m div batchSize"
      proof
        assume "f div batchSize < m div batchSize"
        from early [OF this] p have "Written f (frameName f) \<in> set pre" by simp
        then have "f \<in> set (written pre)" by (auto simp: written_set)
        with f show False by simp
      qed
      moreover from fm have "f div batchSize \<le> m div batchSize" by (rule div_le_mono)
      ultimately have "f div 5 = m div 5" by (simp add: batchSize_def)
      then have "5 * (m div 5) \<le> f \<and> f < 5 * (m div 5) + 5" by (simp add: div5_eq)
      then show "f \<in> {5 * (m div 5)..<5 * (m div 5) + 5}" by simp
    qed
    then have "card (set (starts pre) - set (written pre)) \<le> card {5 * (m div 5)..<5 * (m div 5) + 5}"
      by (intro card_mono) simp_all
    then show ?thesis by (simp add: batchSize_def)
  qed
qed

text \<open>
  C4: the batch size is 5.  In the events of a call, the capture of a frame is started only
  after every frame of an earlier batch has been captured and written; every step of a
  frame's task completes only after the capture of every frame of its batch has been
  started, so the captures of a batch are all issued before any of them resolves; and at
  no moment are more than 5 frames started and not yet written.  The batch of a frame is
  the quotient of its index by the batch size, as the loop starts at 0 and steps by the
  batch size.
\<close>

theorem exportToVideo_batches:
  assumes "exportToVideo e options w = (result, w')"
  shows "batchSize = 5
     \<and> (\<exists>evs. trace w' = trace w @ evs
          \<and> (\<forall>pre j t post f. evs = pre @ CaptureStart j t # post
                \<and> f div batchSize < j div batchSize
                \<longrightarrow> Written f (frameName f) \<in> set pre)
          \<and> (\<forall>pre x post f g. evs = pre @ x # post \<and> task_of x = Some f
                \<and> g div batchSize = f div batchSize \<and> int g < totalFrames options
                \<longrightarrow> CaptureStart g (time (render_frame options g)) \<in> set pre)
          \<and> (\<forall>pre post. evs = pre @ post
                \<longrightarrow> card (set (starts pre) - set (written pre)) \<le> batchSize))"
proof -
  from exportToVideo_call_inv [OF assms] obtain evs j k where
    tr: "trace w' = trace w @ evs" and inv: "call_inv options j k evs" by blast
  from inv have bar: "each_after after_earlier_batches evs"
    and con: "each_after (after_batch_started options) evs"
    unfolding call_inv_def by simp_all
  have 1: "\<forall>pre j t post f. evs = pre @ CaptureStart j t # post
                \<and> f div batchSize < j div batchSize
                \<longrightarrow> Written f (frameName f) \<in> set pre"
    using bar unfolding each_after_def after_earlier_batches_def by blast
  have 2: "\<forall>pre x post f g. evs = pre @ x # post \<and> task_of x = Some f
                \<and> g div batchSize = f div batchSize \<and> int g < totalFrames options
                \<longrightarrow> CaptureStart g (time (render_frame options g)) \<in> set pre"
    using con unfolding each_after_def after_batch_started_def by blast
  have 3: "\<forall>pre post. evs = pre @ post
                \<longrightarrow> card (set (starts pre) - set (written pre)) \<le> batchSize"
    using in_flight [OF inv] by blast
  from tr 1 2 3 show ?thesis by (auto simp: batchSize_def)
qed

text \<open>
  The time handed to a capture: every frame whose capture is started has an index below
  \<open>totalFrames\<close> and is handed the time \<open>index / totalFrames\<close>, which lies in \<open>[0, 1)\<close>; the
  first frame is handed the time \<open>0\<close>; and when the loop has run to its end (the encoder is
  called) the last frame is handed \<open>(totalFrames - 1) / totalFrames\<close>.
\<close>

lemma capture_times:
  assumes "exportToVideo e options w = (result, w')"
  shows "\<exists>evs. trace w' = trace w @ evs
     \<and> (\<forall>f t. CaptureStart f t \<in> set evs \<longrightarrow>
           int f < totalFrames options \<and> t = real f / real_of_int (totalFrames options)
           \<and> 0 \<le> t \<and> t < 1)
     \<and> (starts evs \<noteq> [] \<longrightarrow> CaptureStart 0 0 \<in> set evs)
     \<and> ((\<exists>a. Exec a \<in> set evs) \<and> 1 \<le> totalFrames options \<longrightarrow>
           CaptureStart (nat (totalFrames options) - 1)
             ((real_of_int (totalFrames options) - 1) / real_of_int (totalFrames options)) \<in> set evs)"
proof -
  let ?T = "totalFrames options"
  from exportToVideo_call_inv [OF assms] obtain evs j k where
    tr: "trace w' = trace w @ evs" and inv: "call_inv options j k evs" by blast
  from inv have st: "starts evs = [0..<k]"
    and times: "\<forall>f t. CaptureStart f t \<in> set evs \<longrightarrow>
          t = time (render_frame options f) \<and> int f < ?T"
    and ex: "(\<exists>a. Exec a \<in> set evs) \<longrightarrow> j = nat ?T \<and> k = nat ?T"
    unfolding call_inv_def by simp_all
  have tm: "time (render_frame options f) = real f / real_of_int ?T" for f
    by (simp add: render_frame_def)
  have 1: "\<forall>f t. CaptureStart f t \<in> set evs \<longrightarrow>
           int f < ?T \<and> t = real f / real_of_int ?T \<and> 0 \<le> t \<and> t < 1"
  proof (intro allI impI)
    fix f t assume "CaptureStart f t \<in> set evs"
    with times have "t = time (render_frame options f)" and f: "int f < ?T" by blast+
    then have t: "t = real f / real_of_int ?T" by (simp add: tm)
    from f have pos: "0 < real_of_int ?T" by simp
    from f have "real f < real_of_int ?T" by linarith
    with pos have "real f / real_of_int ?T < 1" by simp
    moreover from pos have "0 \<le> real f / real_of_int ?T" by simp
    ultimately show "int f < ?T \<and> t = real f / real_of_int ?T \<and> 0 \<le> t \<and> t < 1"
      using t f by simp
  qed
  have 2: "starts evs \<noteq> [] \<longrightarrow> CaptureStart 0 0 \<in> set evs"
  proof
    assume "starts evs \<noteq> []"
    with st have "0 \<in> set (starts evs)" by simp
    then obtain t where t: "CaptureStart 0 t \<in> set evs" by (auto simp: starts_set)
    with times have "t = time (render_frame options 0)" by blast
    then have "t = 0" by (simp add: tm)
    with t show "CaptureStart 0 0 \<in> set evs" by simp
  qed
  have 3: "(\<exists>a. Exec a \<in> set evs) \<and> 1 \<le> ?T \<longrightarrow>
           CaptureStart (nat ?T - 1) ((real_of_int ?T - 1) / real_of_int ?T) \<in> set evs"
  proof
    assume a: "(\<exists>a. Exec a \<in> set evs) \<and> 1 \<le> ?T"
    with ex st have "starts evs = [0..<nat ?T]" by simp
    with a have "nat ?T - 1 \<in> set (starts evs)" by simp
    then obtain t where t: "CaptureStart (nat ?T - 1) t \<in> set evs" by (auto simp: starts_set)
    with times have "t = time (render_frame options (nat ?T - 1))" by blast
    then have "t = real (nat ?T - 1) / real_of_int ?T" by (simp add: tm)
    moreover have "real (nat ?T - 1) = real_of_int ?T - 1"
    proof -
      from a have "1 \<le> ?T" by simp
      then have n1: "1 \<le> nat ?T" by linarith
      then have "real (nat ?T - 1) = real (nat ?T) - real (1::nat)" by (rule of_nat_diff)
      moreover from a have "real (nat ?T) = real_of_int ?T" by simp
      ultimately show ?thesis by simp
    qed
    ultimately show "CaptureStart (nat ?T - 1) ((real_of_int ?T - 1) / real_of_int ?T) \<in> set evs"
      using t by simp
  qed
  from tr 1 2 3 show ?thesis by blast
qed

text \<open>
  C1, as the code has it: with a duration \<open>D > 0\<close> and a frame rate \<open>F > 0\<close> whose product is
  below \<open>2 ^ 53\<close>, \<open>totalFrames\<close> is the floor of the product rounded to the nearest double;
  it is no less than the floor of the exact product and no more than its ceiling.  The
  frames whose capture is started are \<open>0, 1, ..., k - 1\<close> in this order for some
  \<open>k \<le> totalFrames\<close>; no frame is written twice and only started frames are written; each
  frame written was captured by \<^verbatim>\<open>captureFrame\<close> at the frame's time without a rejection,
  and the image written by \<^verbatim>\<open>writeFile\<close> under the frame's name without a rejection; the
  files of the frames written are in the storage, in the order of the writes, as long as
  the directory is not removed.  A call that succeeds has called the encoder, and when the
  encoder is called the frames started are exactly \<open>0, ..., totalFrames - 1\<close> and the frames
  written are exactly these.
\<close>

theorem exportToVideo_frame_indices:
  assumes run: "exportToVideo e options w = (result, w')"
    and D: "duration options = Some D" and F: "fps options = Some F"
    and pos: "0 < D" "0 < F" and bound: "fl D * real F < 2 ^ 53"
  shows "totalFrames options = \<lfloor>fl (fl D * real F)\<rfloor>
     \<and> \<lfloor>fl D * real F\<rfloor> \<le> totalFrames options \<and> totalFrames options \<le> \<lceil>fl D * real F\<rceil>
     \<and> (\<exists>evs. trace w' = trace w @ evs
          \<and> (\<exists>k. int k \<le> totalFrames options \<and> starts evs = [0..<k])
          \<and> distinct (written evs) \<and> set (written evs) \<subseteq> set (starts evs)
          \<and> (\<forall>f n. Written f n \<in> set evs \<longrightarrow>
                n = frameName f
              \<and> (\<exists>d. captureFrame e (render_frame options f) = Inr d
                     \<and> writeFile e (frameName f) d = None))
          \<and> (DeleteDir ''frames'' \<notin> set evs \<longrightarrow>
                prefix (files w @ map frameName (written evs)) (files w'))
          \<and> (isl result \<or> Exec (exec_args options) \<in> set evs)
          \<and> ((\<exists>a. Exec a \<in> set evs) \<longrightarrow>
                starts evs = [0..<nat (totalFrames options)]
              \<and> set (written evs) = {..<nat (totalFrames options)}))"
proof -
  let ?x = "fl D * real F"
  have T: "totalFrames options = \<lfloor>fl ?x\<rfloor>"
    using D F by (simp add: totalFrames_def the_duration_def the_fps_def or_default_def)
  have "0 \<le> fl D" using pos(1) by (simp add: fl_nonneg)
  then have x0: "0 \<le> ?x" by simp
  with bound have ab: "\<bar>?x\<bar> < pow2 53" by (simp add: pow2_def)
  have lo: "\<lfloor>?x\<rfloor> \<le> totalFrames options" and hi: "totalFrames options \<le> \<lceil>?x\<rceil>"
    unfolding T using floor_fl [OF ab] by simp_all
  from x0 have "0 \<le> \<lfloor>?x\<rfloor>" by simp
  from this lo have T0: "0 \<le> totalFrames options" by (rule order_trans)
  from exportToVideo_call_inv [OF run] obtain evs j k where
    tr: "trace w' = trace w @ evs" and inv: "call_inv options j k evs"
    and fin: "isl result \<or> Exec (exec_args options) \<in> set evs" by blast
  from exportToVideo_kept [OF run] obtain s where s: "trace w' = trace w @ s"
    and st': "\<And>f. f \<in> set (written s) \<Longrightarrow>
        \<exists>d. captureFrame e (render_frame options f) = Inr d \<and> writeFile e (frameName f) d = None"
    unfolding kept_def by blast
  from s tr have "s = evs" by simp
  with st' have stored: "\<exists>d. captureFrame e (render_frame options f) = Inr d
        \<and> writeFile e (frameName f) d = None" if "f \<in> set (written evs)" for f
    using that by simp
  from exportToVideo_files [OF run] obtain evs' where e': "trace w' = trace w @ evs'"
    and fl': "DeleteDir ''frames'' \<notin> set evs' \<longrightarrow>
                prefix (files w @ map frameName (written evs')) (files w')" by blast
  from e' tr have "evs' = evs" by simp
  with fl' have 5: "DeleteDir ''frames'' \<notin> set evs \<longrightarrow>
                prefix (files w @ map frameName (written evs)) (files w')" by simp
  from inv have st: "starts evs = [0..<k]" and kT: "int k \<le> max 0 (totalFrames options)"
    and dw: "distinct (written evs)"
    and wsub: "set (written evs) \<subseteq> {..<k}" and wsup: "{..<j} \<subseteq> set (written evs)"
    and names: "\<forall>f n. Written f n \<in> set evs \<longrightarrow> n = frameName f"
    and ex: "(\<exists>a. Exec a \<in> set evs) \<longrightarrow> j = nat (totalFrames options) \<and> k = nat (totalFrames options)"
    unfolding call_inv_def by simp_all
  have 1: "\<exists>k. int k \<le> totalFrames options \<and> starts evs = [0..<k]"
    using st kT T0 by (intro exI [of _ k]) simp
  have 2: "set (written evs) \<subseteq> set (starts evs)" using wsub st by auto
  have 3: "(\<exists>a. Exec a \<in> set evs) \<longrightarrow>
                starts evs = [0..<nat (totalFrames options)]
              \<and> set (written evs) = {..<nat (totalFrames options)}"
  proof
    assume "\<exists>a. Exec a \<in> set evs"
    with ex have "j = nat (totalFrames options)" "k = nat (totalFrames options)" by simp_all
    with st wsub wsup show "starts evs = [0..<nat (totalFrames options)]
              \<and> set (written evs) = {..<nat (totalFrames options)}" by auto
  qed
  have 4: "\<forall>f n. Written f n \<in> set evs \<longrightarrow>
                n = frameName f
              \<and> (\<exists>d. captureFrame e (render_frame options f) = Inr d
                     \<and> writeFile e (frameName f) d = None)"
  proof (intro allI impI)
    fix f n assume a: "Written f n \<in> set evs"
    then have "f \<in> set (written evs)" by (auto simp: written_set)
    from stored [OF this] names a show "n = frameName f
              \<and> (\<exists>d. captureFrame e (render_frame options f) = Inr d
                     \<and> writeFile e (frameName f) d = None)" by blast
  qed
  from T lo hi tr 1 dw 2 4 5 fin 3 show ?thesis by blast
qed

subsection \<open>Two failing calls, and a run of seven frames\<close>

lemma fl_number_0_7:
  "fl (3152519739159347 / 4503599627370496) = 3152519739159347 / 4503599627370496"
  by (subst fl_eval [of "- 1"]) (simp_all add: pow2_def round_half_even_def)

lemma short_export_eval:
  "totalFrames short_export = 7" "the_fps short_export = 10" "the_quality short_export = 23"
  "the_width short_export = 1920" "the_height short_export = 1080"
  "the_animations short_export =
     [\<lparr>anim_type = Fade, anim_duration = Some 1, anim_delay = None, anim_easing = None\<rparr>]"
proof -
  have "totalFrames short_export = \<lfloor>fl (fl (3152519739159347 / 4503599627370496) * 10)\<rfloor>"
    by (simp add: totalFrames_def short_export_def the_duration_def the_fps_def or_default_def)
  then show "totalFrames short_export = 7"
    unfolding fl_number_0_7 fl_7 by simp
qed (simp_all add: short_export_def the_fps_def the_quality_def the_width_def the_height_def
    the_animations_def or_default_def)

text \<open>
  Two exports whose number of frames is below the product of the decimal figures: 0.29
  seconds at 100 frames per second has 28 frames, and 4.1 seconds at 30 frames per second
  has 122.
\<close>

lemma totalFrames_rounds_down:
  "totalFrames \<lparr>duration = Some (29 / 100), fps = Some 100, width = None, height = None,
      quality = None, animations = None\<rparr> = 28"
  "totalFrames \<lparr>duration = Some (41 / 10), fps = Some 30, width = None, height = None,
      quality = None, animations = None\<rparr> = 122"
proof -
  have a: "fl (29 / 100) = 5224175567749775 / 18014398509481984"
    by (subst fl_eval [of "- 2"]) (simp_all add: pow2_def round_half_even_def)
  have b: "fl (5224175567749775 / 18014398509481984 * 100) = 8162774324609023 / 281474976710656"
    by (subst fl_eval [of 4]) (simp_all add: pow2_def round_half_even_def)
  have "totalFrames \<lparr>duration = Some (29 / 100), fps = Some 100, width = None, height = None,
      quality = None, animations = None\<rparr> = \<lfloor>fl (fl (29 / 100) * 100)\<rfloor>"
    by (simp add: totalFrames_def the_duration_def the_fps_def or_default_def)
  then show "totalFrames \<lparr>duration = Some (29 / 100), fps = Some 100, width = None, height = None,
      quality = None, animations = None\<rparr> = 28"
    unfolding a b by simp
  have c: "fl (41 / 10) = 2308094809027379 / 562949953421312"
    by (subst fl_eval [of 2]) (simp_all add: pow2_def round_half_even_def)
  have d: "fl (2308094809027379 / 562949953421312 * 30) = 8655355533852671 / 70368744177664"
    by (subst fl_eval [of 6]) (simp_all add: pow2_def round_half_even_def)
  have "totalFrames \<lparr>duration = Some (41 / 10), fps = Some 30, width = None, height = None,
      quality = None, animations = None\<rparr> = \<lfloor>fl (fl (41 / 10) * 30)\<rfloor>"
    by (simp add: totalFrames_def the_duration_def the_fps_def or_default_def)
  then show "totalFrames \<lparr>duration = Some (41 / 10), fps = Some 30, width = None, height = None,
      quality = None, animations = None\<rparr> = 122"
    unfolding c d by simp
qed

lemmas export_eval = exportToVideo_def try_block_def capture_loop.simps run_batch_def task_step_def
  emit_def render_frame_def captureFrame_def short_export_eval batchSize_def exec_args_def
  below_def Let_def upt_rec numeral_2_eq_2 [symmetric]

lemma calm_run:
  "exportToVideo calm short_export empty_world =
     (Inr [0],
      \<lparr>dirs = [], files = [], clone_attached = False,
       trace =
         [CreateDir ''frames'', AppendClone,
          CaptureStart 0 0, CaptureStart 1 (1 / 7), CaptureStart 2 (2 / 7),
          CaptureStart 3 (3 / 7), CaptureStart 4 (4 / 7),
          Captured 1, Captured 0, Written 1 ''frames/frame000001.png'',
          Written 0 ''frames/frame000000.png'', Captured 2, Captured 3, Captured 4,
          Written 2 ''frames/frame000002.png'', Written 3 ''frames/frame000003.png'',
          Written 4 ''frames/frame000004.png'',
          CaptureStart 5 (5 / 7), CaptureStart 6 (6 / 7),
          Captured 6, Captured 5, Written 6 ''frames/frame000006.png'',
          Written 5 ''frames/frame000005.png'',
          Exec [''-framerate'', ''10'', ''-i'', ''frames/frame%06d.png'', ''-c:v'', ''libx264'',
                ''-preset'', ''slow'', ''-crf'', ''23'', ''-pix_fmt'', ''yuv420p'',
                ''-movflags'', ''+faststart'', ''-profile:v'', ''high'', ''-tune'', ''animation'',
                ''-b:v'', ''8M'', ''output.mp4''],
          ReadFile ''output.mp4'', DeleteDir ''frames'', Delete ''output.mp4'', RemoveClone]\<rparr>)"
  by (simp add: export_eval calm_def empty_world_def frame_eval)

lemma late_failure_run:
  "exportToVideo late_failure short_export empty_world =
     (Inl (Err ''Failed to create frame blob''),
      \<lparr>dirs = [''frames''],
       files = [''frames/frame000001.png'', ''frames/frame000000.png'',
                ''frames/frame000002.png'', ''frames/frame000003.png'',
                ''frames/frame000004.png''],
       clone_attached = False,
       trace = [CreateDir ''frames'', AppendClone, CaptureStart 0 0, CaptureStart 1 (1 / 7),
                CaptureStart 2 (2 / 7), CaptureStart 3 (3 / 7), CaptureStart 4 (4 / 7),
                Captured 1, Captured 0, Written 1 ''frames/frame000001.png'',
                Written 0 ''frames/frame000000.png'', Captured 2, Captured 3, Captured 4,
                Written 2 ''frames/frame000002.png'', Written 3 ''frames/frame000003.png'',
                Written 4 ''frames/frame000004.png'',
                CaptureStart 5 (5 / 7), CaptureStart 6 (6 / 7), TaskFailed 6,
                RemoveClone]\<rparr>)"
  by (simp add: export_eval late_failure_def calm_def empty_world_def frame_eval)

text \<open>
  C2 at two failing calls.  When no capture yields an image the call fails in its first
  batch, and when the capture of the last frame fails it fails in its second batch; in
  both the call returns with the directory \<^verbatim>\<open>frames\<close> still in the encoder's storage, in
  the second with the five frames of the first batch in it: no \<open>DeleteDir\<close> is among the
  events, only the removal of the clone.
\<close>

theorem exportToVideo_failure_keeps_frames:
  "exportToVideo blank_canvas short_export empty_world =
     (Inl (Err ''Failed to create frame blob''),
      \<lparr>dirs = [''frames''], files = [], clone_attached = False,
       trace = [CreateDir ''frames'', AppendClone, CaptureStart 0 0, CaptureStart 1 (1 / 7),
                CaptureStart 2 (2 / 7), CaptureStart 3 (3 / 7), CaptureStart 4 (4 / 7),
                TaskFailed 1, RemoveClone]\<rparr>)
   \<and> exportToVideo late_failure short_export empty_world =
     (Inl (Err ''Failed to create frame blob''),
      \<lparr>dirs = [''frames''],
       files = [''frames/frame000001.png'', ''frames/frame000000.png'',
                ''frames/frame000002.png'', ''frames/frame000003.png'',
                ''frames/frame000004.png''],
       clone_attached = False,
       trace = [CreateDir ''frames'', AppendClone, CaptureStart 0 0, CaptureStart 1 (1 / 7),
                CaptureStart 2 (2 / 7), CaptureStart 3 (3 / 7), CaptureStart 4 (4 / 7),
                Captured 1, Captured 0, Written 1 ''frames/frame000001.png'',
                Written 0 ''frames/frame000000.png'', Captured 2, Captured 3, Captured 4,
                Written 2 ''frames/frame000002.png'', Written 3 ''frames/frame000003.png'',
                Written 4 ''frames/frame000004.png'',
                CaptureStart 5 (5 / 7), CaptureStart 6 (6 / 7), TaskFailed 6,
                RemoveClone]\<rparr>)"
  by (simp add: export_eval blank_canvas_def late_failure_def calm_def empty_world_def
      frame_eval)

theorem exportToVideo_frame_indices_witness:
  "duration short_export = Some (3152519739159347 / 4503599627370496)
   \<and> fps short_export = Some 10
   \<and> fl (3152519739159347 / 4503599627370496) * real 10 < 2 ^ 53
   \<and> fst (exportToVideo calm short_export empty_world) = Inr [0]
   \<and> totalFrames short_export = 7
   \<and> starts (trace (snd (exportToVideo calm short_export empty_world))) = [0, 1, 2, 3, 4, 5, 6]
   \<and> set (written (trace (snd (exportToVideo calm short_export empty_world)))) = {..<7}
   \<and> fst (exportToVideo late_failure short_export empty_world) =
        Inl (Err ''Failed to create frame blob'')
   \<and> written (trace (snd (exportToVideo late_failure short_export empty_world))) = [1, 0, 2, 3, 4]
   \<and> prefix (map frameName [1, 0, 2, 3, 4])
        (files (snd (exportToVideo late_failure short_export empty_world)))
   \<and> (\<exists>d. captureFrame late_failure (render_frame short_export 4) = Inr d
          \<and> writeFile late_failure (frameName 4) d = None)"
proof -
  let ?w = "snd (exportToVideo calm short_export empty_world)"
  let ?v = "snd (exportToVideo late_failure short_export empty_world)"
  have D: "duration short_export = Some (3152519739159347 / 4503599627370496)"
    and F: "fps short_export = Some 10"
    by (simp_all add: short_export_def)
  have B: "fl (3152519739159347 / 4503599627370496) * real 10 < 2 ^ 53"
    unfolding fl_number_0_7 by simp
  have T7: "totalFrames short_export = 7" by (rule short_export_eval)
  from exportToVideo_frame_indices [OF calm_run D F _ _ B]
  obtain evs where tr: "trace ?w = trace empty_world @ evs"
    and fin: "(\<exists>a. Exec a \<in> set evs) \<longrightarrow>
                starts evs = [0..<nat (totalFrames short_export)]
              \<and> set (written evs) = {..<nat (totalFrames short_export)}"
    by (auto simp: calm_run)
  from tr have evs: "evs = trace ?w" by (simp add: empty_world_def)
  have "\<exists>a. Exec a \<in> set evs" unfolding evs by (simp add: calm_run)
  with fin have "starts evs = [0..<nat (totalFrames short_export)]"
    and "set (written evs) = {..<nat (totalFrames short_export)}" by blast+
  then have s: "starts (trace ?w) = [0..<7]" and w: "set (written (trace ?w)) = {..<7}"
    unfolding evs T7 by simp_all
  have u: "[0..<7] = [0, 1, 2, 3, 4, 5, 6::nat]" by (simp add: upt_rec numeral_2_eq_2 [symmetric])
  have r: "fst (exportToVideo calm short_export empty_world) = Inr [0]" by (simp add: calm_run)
  from exportToVideo_frame_indices [OF late_failure_run D F _ _ B]
  obtain evs' where tr': "trace ?v = trace empty_world @ evs'"
    and st: "\<forall>f n. Written f n \<in> set evs' \<longrightarrow>
                n = frameName f
              \<and> (\<exists>d. captureFrame late_failure (render_frame short_export f) = Inr d
                     \<and> writeFile late_failure (frameName f) d = None)"
    and fi: "DeleteDir ''frames'' \<notin> set evs' \<longrightarrow>
                prefix (files empty_world @ map frameName (written evs')) (files ?v)"
    by (auto simp: late_failure_run)
  from tr' have evs': "evs' = trace ?v" by (simp add: empty_world_def)
  have wl: "written (trace ?v) = [1, 0, 2, 3, 4]" by (simp add: late_failure_run)
  have "DeleteDir ''frames'' \<notin> set evs'" unfolding evs' by (simp add: late_failure_run)
  with fi have "prefix (files empty_world @ map frameName (written evs')) (files ?v)" by blast
  then have p: "prefix (map frameName [1, 0, 2, 3, 4]) (files ?v)"
    unfolding evs' wl by (simp add: empty_world_def)
  have "Written 4 ''frames/frame000004.png'' \<in> set evs'"
    unfolding evs' by (simp add: late_failure_run)
  with st have c: "\<exists>d. captureFrame late_failure (render_frame short_export 4) = Inr d
          \<and> writeFile late_failure (frameName 4) d = None" by blast
  have fr: "fst (exportToVideo late_failure short_export empty_world) =
        Inl (Err ''Failed to create frame blob'')" by (simp add: late_failure_run)
  from D F B r T7 s [unfolded u] w fr wl p c show ?thesis by (intro conjI)
qed

text \<open>
  The number of frames is not always the floor of the product of the duration and the
  frame rate.  The number \<^verbatim>\<open>0.7\<close> is a double a little below \<open>7/10\<close>, and the floor of its
  product with \<open>10\<close> is \<open>6\<close>; the code rounds the product to the nearest double, which is \<open>7\<close>,
  and captures the seven frames \<open>0, ..., 6\<close>.
\<close>

theorem totalFrames_rounds_up:
  "duration short_export = Some (3152519739159347 / 4503599627370496)
   \<and> fps short_export = Some 10
   \<and> fl (7 / 10) = 3152519739159347 / 4503599627370496
   \<and> fl (3152519739159347 / 4503599627370496) = 3152519739159347 / 4503599627370496
   \<and> \<lfloor>3152519739159347 / 4503599627370496 * real 10\<rfloor> = 6
   \<and> totalFrames short_export = 7
   \<and> fst (exportToVideo calm short_export empty_world) = Inr [0]
   \<and> starts (trace (snd (exportToVideo calm short_export empty_world))) = [0, 1, 2, 3, 4, 5, 6]"
proof -
  have D: "duration short_export = Some (3152519739159347 / 4503599627370496)"
    and F: "fps short_export = Some 10"
    by (simp_all add: short_export_def)
  have x: "\<lfloor>3152519739159347 / 4503599627370496 * real 10\<rfloor> = (6::int)" by simp
  have T7: "totalFrames short_export = 7" by (rule short_export_eval)
  have r: "fst (exportToVideo calm short_export empty_world) = Inr [0]" by (simp add: calm_run)
  have s: "starts (trace (snd (exportToVideo calm short_export empty_world))) = [0, 1, 2, 3, 4, 5, 6]"
    by (simp add: calm_run)
  from D F fl_7_10 fl_number_0_7 x T7 r s show ?thesis by (intro conjI)
qed

theorem exportToVideo_batches_witness:
  "fst (exportToVideo calm short_export empty_world) = Inr [0]
   \<and> (0::nat) div batchSize < 5 div batchSize
   \<and> trace (snd (exportToVideo calm short_export empty_world)) ! 17 = CaptureStart 5 (5 / 7)
   \<and> Written 0 (frameName 0)
        \<in> set (take 17 (trace (snd (exportToVideo calm short_export empty_world))))"
proof -
  let ?w = "snd (exportToVideo calm short_export empty_world)"
  from exportToVideo_batches [OF calm_run]
  obtain evs where tr: "trace ?w = trace empty_world @ evs"
    and bar: "\<forall>pre j t post f. evs = pre @ CaptureStart j t # post
                \<and> f div batchSize < j div batchSize
                \<longrightarrow> Written f (frameName f) \<in> set pre"
    by (auto simp: calm_run)
  from tr have evs: "evs = trace ?w" by (simp add: empty_world_def)
  have d: "(0::nat) div batchSize < 5 div batchSize" by (simp add: batchSize_def)
  have sp: "evs = take 17 (trace ?w) @ CaptureStart 5 (5 / 7) # drop 18 (trace ?w)"
    unfolding evs by (simp add: calm_run)
  from bar sp d have a: "Written 0 (frameName 0) \<in> set (take 17 (trace ?w))" by blast
  have b: "trace ?w ! 17 = CaptureStart 5 (5 / 7)" by (simp add: calm_run)
  have c: "fst (exportToVideo calm short_export empty_world) = Inr [0]" by (simp add: calm_run)
  from a b c d show ?thesis by (intro conjI)
qed

text \<open>
  C10 at the seven-frame export with the default animation, a fade of one second, when
  the library calls \<^verbatim>\<open>onComplete\<close> at the end of a timeline.  A frame is handed a time in
  \<open>[0, 1)\<close>, frame 0 the time \<open>0\<close>, at which the fade has the opacity \<open>0\<close>.  But
  \<^verbatim>\<open>captureFrame\<close> rasterises the element only after the promise of \<^verbatim>\<open>applyAnimations\<close>
  is resolved, in \<^verbatim>\<open>onComplete\<close>: the picture of every frame, frame 0 included, shows the
  element in the state of progress \<open>1\<close>, with the opacity \<open>1\<close>.
\<close>

theorem captureFrame_shows_end_state:
  "fst (exportToVideo calm short_export empty_world) = Inr [0]
   \<and> written (trace (snd (exportToVideo calm short_export empty_world))) = [1, 0, 2, 3, 4, 6, 5]
   \<and> time (render_frame short_export 0) = 0
   \<and> completes_at calm (time (render_frame short_export 0)) = 1
   \<and> applyAnimations (easing calm) 0 (the_animations short_export) =
        \<lparr>opacity = 0, translate_x = 0, scale = 1, rotation = 0\<rparr>
   \<and> applyAnimations (easing calm) 1 (the_animations short_export) =
        \<lparr>opacity = 1, translate_x = 0, scale = 1, rotation = 0\<rparr>
   \<and> (\<forall>f. captureFrame calm (render_frame short_export f) =
          Inr (Flat \<lparr>opacity = 1, translate_x = 0, scale = 1, rotation = 0\<rparr> 1920 1080))"
proof -
  have a: "applyAnimations linear p (the_animations short_export) =
        \<lparr>opacity = (if p \<le> 0 then 0 else if 1 \<le> p then 1 else p), translate_x = 0, scale = 1,
         rotation = 0\<rparr>" for p
    by (simp add: short_export_eval applyAnimations_def single_timeline tween_vars_def seek_def
        render_tween_def timeline_duration_def tween_ratio_def duration_of_def delay_of_def
        linear_def neutral_def)
  have c: "captureFrame calm (render_frame short_export f) =
          Inr (Flat \<lparr>opacity = 1, translate_x = 0, scale = 1, rotation = 0\<rparr> 1920 1080)" for f
    by (simp add: captureFrame_def render_frame_def short_export_eval calm_def
        applyAnimations_def single_timeline tween_vars_def seek_def
        render_tween_def timeline_duration_def tween_ratio_def duration_of_def delay_of_def
        linear_def neutral_def)
  have l: "easing calm = linear" by (simp add: calm_def)
  have r: "fst (exportToVideo calm short_export empty_world) = Inr [0]" by (simp add: calm_run)
  have t: "time (render_frame short_export 0) = 0" by (simp add: render_frame_def)
  have a0: "applyAnimations (easing calm) 0 (the_animations short_export) =
        \<lparr>opacity = 0, translate_x = 0, scale = 1, rotation = 0\<rparr>"
    unfolding l a by simp
  have a1: "applyAnimations (easing calm) 1 (the_animations short_export) =
        \<lparr>opacity = 1, translate_x = 0, scale = 1, rotation = 0\<rparr>"
    unfolding l a by simp
  have o: "completes_at calm (time (render_frame short_export 0)) = 1" by (simp add: calm_def)
  have w: "written (trace (snd (exportToVideo calm short_export empty_world))) = [1, 0, 2, 3, 4, 6, 5]"
    by (simp add: calm_run)
  from r w t o a0 a1 c show ?thesis by (intro conjI allI)
qed

subsection \<open>The storage after a call\<close>

text \<open>
  The storage after a call, for every environment.  A call that succeeds returns with neither
  the directory \<^verbatim>\<open>frames\<close>, nor a file below it, nor the output file in the storage.  A
  call that fails after it has created the directory returns with the directory or with
  the output file still in the storage.
\<close>

lemma capture_loop_storage:
  assumes "capture_loop e options 0 w = R"
  shows "case R of Inr w' \<Rightarrow> dirs w' = dirs w \<and> clone_attached w' = clone_attached w
         | Inl (err, w') \<Rightarrow> dirs w' = dirs w \<and> clone_attached w' = clone_attached w"
proof -
  have d: "batchSize dvd 0" by simp
  have li: "loop_inv options (min 0 (nat (totalFrames options))) (min 0 (nat (totalFrames options))) []"
    by (simp add: loop_inv_init)
  from capture_loop_inv [OF assms same_but_refl d li] show ?thesis
    by (auto simp: same_but_def split: sum.splits)
qed

lemma not_below_output: "\<not> below ''frames'' ''output.mp4''"
  by (simp add: below_def)

lemma exportToVideo_success_cleans:
  assumes "exportToVideo e options w = (Inr blob, w')"
  shows "''frames'' \<notin> set (dirs w') \<and> ''output.mp4'' \<notin> set (files w')
     \<and> (\<forall>f \<in> set (files w'). \<not> below ''frames'' f) \<and> \<not> clone_attached w'"
proof -
  from assms obtain w2 w3 where tb: "try_block e options w2 = (Inr blob, w3)"
    and w': "w' = (if clone_attached w3 then emit [RemoveClone] (w3\<lparr>clone_attached := False\<rparr>) else w3)"
    by (auto simp: exportToVideo_def Let_def split: sum.splits if_splits option.splits prod.splits)
  from tb have "''frames'' \<notin> set (dirs w3) \<and> ''output.mp4'' \<notin> set (files w3)
     \<and> (\<forall>f \<in> set (files w3). \<not> below ''frames'' f)"
    by (auto simp: try_block_def Let_def emit_def not_below_output
        split: sum.splits option.splits prod.splits)
  with w' show ?thesis by (auto simp: emit_def)
qed

lemma exportToVideo_failure_leaves_storage:
  assumes "exportToVideo e options w = (Inl err, w')"
    and "awaited_ffmpeg e = Inr True" and "createDir e ''frames'' = None"
  shows "''frames'' \<in> set (dirs w') \<or> ''output.mp4'' \<in> set (files w')"
proof -
  define w2 where "w2 = emit [AppendClone]
          ((emit [CreateDir ''frames''] (w\<lparr>dirs := dirs w @ [''frames'']\<rparr>))\<lparr>clone_attached := True\<rparr>)"
  have d2: "''frames'' \<in> set (dirs w2)" by (simp add: w2_def emit_def)
  obtain r w3 where tb: "try_block e options w2 = (r, w3)" by (cases "try_block e options w2")
  from assms tb have r: "r = Inl err"
    and w': "dirs w' = dirs w3" "files w' = files w3"
    by (auto simp: exportToVideo_def Let_def w2_def emit_def split: if_splits)
  have "''frames'' \<in> set (dirs w3) \<or> ''output.mp4'' \<in> set (files w3)"
  proof (cases "capture_loop e options 0 w2")
    case (Inl f)
    obtain err1 w1 where f: "f = (err1, w1)" by (cases f)
    from capture_loop_storage [OF Inl] f have "dirs w1 = dirs w2" by simp
    moreover from tb Inl f have "w3 = w1" by (simp add: try_block_def)
    ultimately show ?thesis using d2 by simp
  next
    case (Inr w1)
    from capture_loop_storage [OF Inr] have d1: "dirs w1 = dirs w2" by simp
    from tb r Inr d1 d2 show ?thesis
      by (auto simp: try_block_def Let_def emit_def not_below_output
          split: sum.splits option.splits)
  qed
  with w' show ?thesis by simp
qed

end
